theory Spec2Isabelle
  imports Complex_Main "HOL-Library.Word"
begin

section \<open>The spectrum visualiser of \<^verbatim>\<open>src/main.cpp\<close>\<close>

text \<open>
  The development embeds the image pipeline that \<^verbatim>\<open>main\<close> runs when a PNG file is
  dropped on the window: \<^verbatim>\<open>png_to_luminance\<close>, \<^verbatim>\<open>image_buffer::compute_mean\<close>, the
  mean-centering loop, \<^verbatim>\<open>compute_fft_2d\<close>, the magnitude normalisation,
  \<^verbatim>\<open>shift_fft_image\<close> and \<^verbatim>\<open>center_fft_image\<close>.

  Conventions of the embedding.
  \<^item> The C++ \<^verbatim>\<open>int\<close> sizes and loop counters are natural numbers: every counter runs
    upwards from \<^verbatim>\<open>0\<close>, and every subtraction of the source stands in a branch whose
    guard makes it exact. 32-bit overflow of index arithmetic is not modelled.
  \<^item> A finite \<^verbatim>\<open>float\<close> is an exact real number: rounding to 24 bits and signed zeros
    are not modelled. The samples of the image buffer after the transform are values of
    type \<open>flt\<close>, with the IEEE special values: its operations give NaN and the
    infinities where binary32 does, for a zero divisor and for a result beyond the
    largest finite float. The stages before that work on luminances in \<open>[0, 1]\<close> and
    on sums of at most \<^verbatim>\<open>size.x * size.y\<close> of them, which cannot overflow; they are written
    over the reals, with the one zero divisor of \<^verbatim>\<open>compute_mean\<close> written out.
  \<^item> Indexing through a raw pointer has no bounds check in the source; an access
    outside the allocation is undefined behaviour, and is the error value
    \<open>OutOfBoundsAccess\<close> here.
\<close>

subsection \<open>Errors, memory and loops\<close>

datatype error = RuntimeError string | OutOfBoundsAccess | NonFiniteSample

definition load :: "'a list \<Rightarrow> nat \<Rightarrow> error + 'a" where
  "load mem k = (if k < length mem then Inr (mem ! k) else Inl OutOfBoundsAccess)"

definition store :: "'a list \<Rightarrow> nat \<Rightarrow> 'a \<Rightarrow> error + 'a list" where
  "store mem k v = (if k < length mem then Inr (mem[k := v]) else Inl OutOfBoundsAccess)"

definition load_range :: "'a list \<Rightarrow> nat \<Rightarrow> nat \<Rightarrow> error + 'a list" where
  "load_range mem k n =
     (if k + n \<le> length mem then Inr (take n (drop k mem)) else Inl OutOfBoundsAccess)"

text \<open>A \<^verbatim>\<open>for\<close> loop over the listed counter values; the first failing iteration ends it.\<close>

fun for_each :: "('k \<Rightarrow> 's \<Rightarrow> error + 's) \<Rightarrow> 'k list \<Rightarrow> 's \<Rightarrow> error + 's" where
  "for_each body [] s = Inr s"
| "for_each body (k # ks) s =
     (case body k s of Inl e \<Rightarrow> Inl e | Inr s' \<Rightarrow> for_each body ks s')"

text \<open>
  The nest \<^verbatim>\<open>for (i = 0; i < rows; i++) for (j = 0; j < cols; j++)\<close> visits the pairs in
  this order.
\<close>

definition cells :: "nat \<Rightarrow> nat \<Rightarrow> (nat \<times> nat) list" where
  "cells rows cols = List.product [0..<rows] [0..<cols]"

subsection \<open>Floating-point values\<close>

datatype flt = Fin real | PInf | NInf | NaN

fun flt_less :: "flt \<Rightarrow> flt \<Rightarrow> bool" where
  "flt_less (Fin a) (Fin b) = (a < b)"
| "flt_less (Fin a) PInf = True"
| "flt_less NInf (Fin b) = True"
| "flt_less NInf PInf = True"
| "flt_less _ _ = False"

text \<open>
  The result of an operation on finite floats whose exact value is \<open>r\<close>. Binary32 rounds
  to an infinity from \<open>2\<^sup>1\<^sup>2\<^sup>8 - 2\<^sup>1\<^sup>0\<^sup>3\<close> on, the largest finite float plus half a unit in
  its last place; below that the exact value stands for its rounding.
\<close>

definition FLT_OVERFLOW :: real where
  "FLT_OVERFLOW = 2 ^ 128 - 2 ^ 103"

definition flt_of_exact :: "real \<Rightarrow> flt" where
  "flt_of_exact r =
     (if FLT_OVERFLOW \<le> r then PInf else if r \<le> - FLT_OVERFLOW then NInf else Fin r)"

fun flt_sub :: "flt \<Rightarrow> flt \<Rightarrow> flt" where
  "flt_sub (Fin a) (Fin b) = flt_of_exact (a - b)"
| "flt_sub NaN _ = NaN"
| "flt_sub _ NaN = NaN"
| "flt_sub PInf PInf = NaN"
| "flt_sub NInf NInf = NaN"
| "flt_sub PInf _ = PInf"
| "flt_sub NInf _ = NInf"
| "flt_sub (Fin a) PInf = NInf"
| "flt_sub (Fin a) NInf = PInf"

fun flt_neg :: "flt \<Rightarrow> flt" where
  "flt_neg (Fin a) = Fin (- a)"
| "flt_neg PInf = NInf"
| "flt_neg NInf = PInf"
| "flt_neg NaN = NaN"

fun flt_mul :: "flt \<Rightarrow> flt \<Rightarrow> flt" where
  "flt_mul (Fin a) (Fin b) = flt_of_exact (a * b)"
| "flt_mul NaN _ = NaN"
| "flt_mul _ NaN = NaN"
| "flt_mul (Fin a) x = (if a = 0 then NaN else if 0 < a then x else flt_neg x)"
| "flt_mul x (Fin b) = (if b = 0 then NaN else if 0 < b then x else flt_neg x)"
| "flt_mul PInf x = x"
| "flt_mul NInf x = flt_neg x"

fun flt_div :: "flt \<Rightarrow> flt \<Rightarrow> flt" where
  "flt_div (Fin a) (Fin b) =
     (if b \<noteq> 0 then flt_of_exact (a / b)
      else if a = 0 then NaN else if 0 < a then PInf else NInf)"
| "flt_div NaN _ = NaN"
| "flt_div _ NaN = NaN"
| "flt_div (Fin a) _ = Fin 0"
| "flt_div x (Fin b) = (if 0 \<le> b then x else flt_neg x)"
| "flt_div _ _ = NaN"

subsection \<open>Image buffers\<close>

text \<open>
  \<^verbatim>\<open>image_buffer<T, 1>\<close>: the constant \<^verbatim>\<open>size\<close> (\<^verbatim>\<open>size.x\<close> the width, \<^verbatim>\<open>size.y\<close> the
  height) and the array that \<^verbatim>\<open>data\<close> owns and \<^verbatim>\<open>alias\<close> points to (\<open>storage\<close>).
\<close>

record 'a image_buffer =
  size_x :: nat
  size_y :: nat
  storage :: "'a list"

text \<open>
  The constructor \<^verbatim>\<open>image_buffer(size)\<close> allocates \<^verbatim>\<open>size.x * size.y\<close> samples and leaves
  them uninitialised; \<open>fill\<close> stands for that unspecified content.
\<close>

definition new_image_buffer :: "nat \<Rightarrow> nat \<Rightarrow> 'a \<Rightarrow> 'a image_buffer" where
  "new_image_buffer w h fill = \<lparr>size_x = w, size_y = h, storage = replicate (w * h) fill\<rparr>"

text \<open>\<^verbatim>\<open>T & operator()(int y, int x) { return alias[y * size.x + x]; }\<close>, read and written.\<close>

definition buf_get :: "'a image_buffer \<Rightarrow> nat \<Rightarrow> nat \<Rightarrow> error + 'a" where
  "buf_get buf y x = load (storage buf) (y * size_x buf + x)"

definition buf_set :: "'a image_buffer \<Rightarrow> nat \<Rightarrow> nat \<Rightarrow> 'a \<Rightarrow> error + 'a image_buffer" where
  "buf_set buf y x v =
     (case store (storage buf) (y * size_x buf + x) v of
        Inl e \<Rightarrow> Inl e
      | Inr mem \<Rightarrow> Inr (buf\<lparr>storage := mem\<rparr>))"

subsection \<open>Quadrant centering: \<^verbatim>\<open>center_fft_image\<close>\<close>

text \<open>
  The input cell whose value the loop body copies to \<^verbatim>\<open>out(i, j)\<close>, for an input of
  width \<open>w\<close> and height \<open>h\<close>. The second branch adds \<^verbatim>\<open>halfWidth\<close> to the row, as the
  source does.
\<close>

definition center_src :: "nat \<Rightarrow> nat \<Rightarrow> nat \<times> nat \<Rightarrow> nat \<times> nat" where
  "center_src w h = (\<lambda>(i, j).
     let halfWidth = w div 2; halfHeight = h div 2 in
     if i < halfHeight then
       (if j < halfWidth then (i + halfHeight, j + halfWidth)
        else (i + halfWidth, j - halfWidth))
     else
       (if j < halfWidth then (i - halfHeight, j + halfWidth)
        else (i - halfHeight, j - halfWidth)))"

definition center_px ::
  "'a image_buffer \<Rightarrow> nat \<times> nat \<Rightarrow> 'a image_buffer \<Rightarrow> error + 'a image_buffer" where
  "center_px inp = (\<lambda>(i, j) out.
     case center_src (size_x inp) (size_y inp) (i, j) of (y, x) \<Rightarrow>
       (case buf_get inp y x of
          Inl e \<Rightarrow> Inl e
        | Inr v \<Rightarrow> buf_set out i j v))"

definition center_fft_image ::
  "'a image_buffer \<Rightarrow> 'a image_buffer \<Rightarrow> error + 'a image_buffer" where
  "center_fft_image inp out =
     for_each (center_px inp) (cells (size_y inp) (size_x inp)) out"

text \<open>The pixel coordinates of a \<open>w\<close> by \<open>h\<close> buffer, as (row, column).\<close>

definition coords :: "nat \<Rightarrow> nat \<Rightarrow> (nat \<times> nat) set" where
  "coords w h = {0..<h} \<times> {0..<w}"

text \<open>The same map on row-major indices: the input index read for output index \<open>k\<close>.\<close>

definition center_flat :: "nat \<Rightarrow> nat \<Rightarrow> nat \<Rightarrow> nat" where
  "center_flat w h k = (case center_src w h (k div w, k mod w) of (y, x) \<Rightarrow> y * w + x)"

subsection \<open>Luminance extraction: \<^verbatim>\<open>as_float\<close>, \<^verbatim>\<open>to_luminance\<close>, \<^verbatim>\<open>png_to_luminance\<close>\<close>

definition to_luminance :: "real \<Rightarrow> real \<Rightarrow> real \<Rightarrow> real" where
  "to_luminance r g b = 0.2126 * r + 0.7152 * g + 0.0722 * b"

text \<open>
  \<^verbatim>\<open>as_float<uint8_t>\<close>: \<^verbatim>\<open>std::numeric_limits<uint8_t>::min()\<close> is 0 and \<^verbatim>\<open>max()\<close> is 255.
\<close>

definition as_float :: "8 word \<Rightarrow> real" where
  "as_float x = (let minv = 0; maxv = 255 in (real (unat x) - minv) / (maxv - minv))"

text \<open>
  What \<^verbatim>\<open>stbi_load_from_memory\<close> hands back: \<^verbatim>\<open>width\<close>, \<^verbatim>\<open>height\<close>, the channel count
  \<^verbatim>\<open>nBytes\<close> and the interleaved 8-bit samples. The decoder itself is outside the
  repository's source.
\<close>

record decoded =
  img_width :: nat
  img_height :: nat
  nBytes :: nat
  bytes :: "8 word list"

definition png_to_luminance :: "decoded \<Rightarrow> error + real image_buffer" where
  "png_to_luminance dec =
     (let w = img_width dec; h = img_height dec; n = nBytes dec in
      for_each
        (\<lambda>(y, x) buffer.
           case load (bytes dec) (n * (y * w + x) + 0) of Inl e \<Rightarrow> Inl e | Inr r \<Rightarrow>
           case load (bytes dec) (n * (y * w + x) + 1) of Inl e \<Rightarrow> Inl e | Inr g \<Rightarrow>
           case load (bytes dec) (n * (y * w + x) + 2) of Inl e \<Rightarrow> Inl e | Inr b \<Rightarrow>
             buf_set buffer y x (to_luminance (as_float r) (as_float g) (as_float b)))
        (cells h w) (new_image_buffer w h 0))"

text \<open>
  \<^verbatim>\<open>upload_png\<close>, the loader that \<^verbatim>\<open>main\<close> no longer calls: its \<^verbatim>\<open>switch (nBytes)\<close>
  throws for any channel count other than 3 and 4. The texture upload is an effect on
  the GL state; the model returns the size that \<^verbatim>\<open>buffer.set_size\<close> records.
\<close>

definition upload_png :: "decoded \<Rightarrow> error + nat \<times> nat" where
  "upload_png dec =
     (if nBytes dec = 3 then Inr (img_width dec, img_height dec)
      else if nBytes dec = 4 then Inr (img_width dec, img_height dec)
      else Inl (RuntimeError ''unsupported number of channels''))"

subsection \<open>Mean-centering: \<^verbatim>\<open>compute_mean\<close> and the loop of \<^verbatim>\<open>main\<close>\<close>

text \<open>
  The sum of the samples divided by their number. With no sample the sum is 0 and the
  quotient \<open>0 / 0\<close> is NaN.
\<close>

definition compute_mean :: "real image_buffer \<Rightarrow> error + flt" where
  "compute_mean buf =
     (case for_each
             (\<lambda>x m. case load (storage buf) x of Inl e \<Rightarrow> Inl e | Inr v \<Rightarrow> Inr (m + v))
             [0..<size_x buf * size_y buf] 0 of
        Inl e \<Rightarrow> Inl e
      | Inr m \<Rightarrow>
         Inr (if size_x buf * size_y buf = 0 then NaN
              else Fin (m / real (size_x buf * size_y buf))))"

text \<open>
  The stage returns the image buffer as it leaves it together with the new
  \<^verbatim>\<open>imgAsComplexArray\<close> (a vector of \<^verbatim>\<open>size.x * size.y\<close> zeros before the loop). A
  complex number holds finite parts only, so a mean that is not finite ends the
  run with \<open>NonFiniteSample\<close>; \<open>mean_center_error\<close> below shows that this never happens.
\<close>

definition mean_center :: "real image_buffer \<Rightarrow> error + real image_buffer \<times> complex list" where
  "mean_center img =
     (case compute_mean img of
        Inl e \<Rightarrow> Inl e
      | Inr mean \<Rightarrow>
         (case for_each
                 (\<lambda>(y, x) arr.
                    case buf_get img y x of
                      Inl e \<Rightarrow> Inl e
                    | Inr v \<Rightarrow>
                       (case mean of
                          Fin m \<Rightarrow> store arr (y * size_x img + x) (Complex (v - m) 0)
                        | _ \<Rightarrow> Inl NonFiniteSample))
                 (cells (size_y img) (size_x img))
                 (replicate (size_x img * size_y img) 0) of
            Inl e \<Rightarrow> Inl e
          | Inr arr \<Rightarrow> Inr (img, arr)))"

subsection \<open>The two-dimensional transform: \<^verbatim>\<open>compute_fft_2d\<close>\<close>

text \<open>
  Modelled from the spec: \<^verbatim>\<open>kissfft<float>(n, false).transform(src, dst)\<close> of
  \<^verbatim>\<open>kissfft/kissfft.hpp\<close>, which is not among the source files. The spec calls it a
  forward 1D complex DFT of length \<open>n\<close>; the model is the unscaled sum
  \<open>X\<^sub>k = \<Sum>\<^sub>j x\<^sub>j exp (- 2 \<pi> i j k / n)\<close> over the first \<open>n\<close> samples of \<open>src\<close>, and the
  result is the \<open>n\<close> samples written to \<open>dst\<close>.
\<close>

definition twiddle :: "nat \<Rightarrow> nat \<Rightarrow> complex" where
  "twiddle n m = cis (- (2 * pi * real m / real n))"

definition kissfft_transform :: "nat \<Rightarrow> complex list \<Rightarrow> complex list" where
  "kissfft_transform n src =
     map (\<lambda>k. \<Sum>j\<leftarrow>[0..<n]. src ! j * twiddle n (j * k)) [0..<n]"

text \<open>
  One iteration of the loop over the rows: the transform reads \<open>width\<close> samples from
  \<^verbatim>\<open>&data[y * width]\<close> into \<^verbatim>\<open>xTmp\<close>, and the inner loop copies them back. The vectors
  \<^verbatim>\<open>xTmp\<close> and \<^verbatim>\<open>yTmp\<close> have \<^verbatim>\<open>std::max(width, height)\<close> entries; a transform of length
  \<open>n\<close> writes the first \<open>n\<close> of them and the copy loop reads exactly those.
\<close>

definition fft_row :: "nat \<Rightarrow> nat \<Rightarrow> complex list \<Rightarrow> error + complex list" where
  "fft_row width y dat =
     (case load_range dat (y * width) width of
        Inl e \<Rightarrow> Inl e
      | Inr inputRow \<Rightarrow>
         (let xTmp = kissfft_transform width inputRow in
          for_each (\<lambda>x d. store d (y * width + x) (xTmp ! x)) [0..<width] dat))"

text \<open>
  One iteration of the loop over the columns: gather the column into \<^verbatim>\<open>ySrc\<close> (a vector
  of \<open>height\<close> samples, every one of them overwritten in each iteration), transform it
  into \<^verbatim>\<open>yTmp\<close>, scatter \<^verbatim>\<open>yTmp\<close> back.
\<close>

definition fft_col :: "nat \<Rightarrow> nat \<Rightarrow> nat \<Rightarrow> complex list \<Rightarrow> error + complex list" where
  "fft_col width height x dat =
     (case for_each
             (\<lambda>y ySrc. case load dat (y * width + x) of
                          Inl e \<Rightarrow> Inl e
                        | Inr v \<Rightarrow> store ySrc y v)
             [0..<height] (replicate height 0) of
        Inl e \<Rightarrow> Inl e
      | Inr ySrc \<Rightarrow>
         (let yTmp = kissfft_transform height ySrc in
          for_each (\<lambda>y d. store d (y * width + x) (yTmp ! y)) [0..<height] dat))"

definition compute_fft_2d :: "complex list \<Rightarrow> nat \<Rightarrow> nat \<Rightarrow> error + complex list" where
  "compute_fft_2d dat width height =
     (case for_each (fft_row width) [0..<height] dat of
        Inl e \<Rightarrow> Inl e
      | Inr rows_done \<Rightarrow> for_each (fft_col width height) [0..<width] rows_done)"

text \<open>
  The two-dimensional discrete Fourier transform of a row-major \<open>width\<close> by \<open>height\<close>
  signal, written from its textbook definition:
  \<open>X(l, k) = \<Sum>\<^sub>y \<Sum>\<^sub>x a(y, x) exp (- 2 \<pi> i (k x / width + l y / height))\<close>.
\<close>

definition dft_2d :: "nat \<Rightarrow> nat \<Rightarrow> complex list \<Rightarrow> complex list" where
  "dft_2d width height a =
     map (\<lambda>n. \<Sum>y\<leftarrow>[0..<height]. \<Sum>x\<leftarrow>[0..<width].
            a ! (y * width + x) *
            cis (- (2 * pi * (real ((n mod width) * x) / real width
                            + real ((n div width) * y) / real height))))
         [0..<width * height]"

text \<open>
  Row \<open>y\<close> and column \<open>x\<close> of a row-major array, and the two phases of the row-column
  scheme as functions of the whole array: every row transformed, then every column.
\<close>

definition row_of :: "nat \<Rightarrow> complex list \<Rightarrow> nat \<Rightarrow> complex list" where
  "row_of w d y = take w (drop (y * w) d)"

definition col_of :: "nat \<Rightarrow> nat \<Rightarrow> complex list \<Rightarrow> nat \<Rightarrow> complex list" where
  "col_of w h d x = map (\<lambda>y. d ! (y * w + x)) [0..<h]"

definition rows_transformed :: "nat \<Rightarrow> nat \<Rightarrow> complex list \<Rightarrow> complex list" where
  "rows_transformed w h a =
     map (\<lambda>k. kissfft_transform w (row_of w a (k div w)) ! (k mod w)) [0..<h * w]"

definition cols_transformed :: "nat \<Rightarrow> nat \<Rightarrow> complex list \<Rightarrow> complex list" where
  "cols_transformed w h r =
     map (\<lambda>k. kissfft_transform h (col_of w h r (k mod w)) ! (k div w)) [0..<h * w]"

subsection \<open>Magnitude normalisation in \<^verbatim>\<open>main\<close>\<close>

text \<open>The loop that finds \<^verbatim>\<open>min\<close> and \<^verbatim>\<open>max\<close> of \<^verbatim>\<open>std::abs\<close> over the array.\<close>

definition spectrum_min_max :: "complex list \<Rightarrow> nat \<Rightarrow> error + real \<times> real" where
  "spectrum_min_max arr n =
     (case load arr 0 of
        Inl e \<Rightarrow> Inl e
      | Inr a0 \<Rightarrow>
         for_each
           (\<lambda>i (mn, mx). case load arr i of
                           Inl e \<Rightarrow> Inl e
                         | Inr a \<Rightarrow> (let value = cmod a in Inr (min mn value, max mx value)))
           [0..<n] (cmod a0, cmod a0))"

text \<open>
  The loop "Convert back to image type". The image buffer held finite luminances and now
  receives quotients, which are not finite when \<^verbatim>\<open>max - min\<close> is zero.
\<close>

definition as_flt_buffer :: "real image_buffer \<Rightarrow> flt image_buffer" where
  "as_flt_buffer img =
     \<lparr>size_x = size_x img, size_y = size_y img, storage = map Fin (storage img)\<rparr>"

definition normalize_image ::
  "complex list \<Rightarrow> real \<Rightarrow> real \<Rightarrow> flt image_buffer \<Rightarrow> error + flt image_buffer" where
  "normalize_image arr mn mx img =
     for_each
       (\<lambda>(y, x) im.
          case load arr (y * size_x im + x) of
            Inl e \<Rightarrow> Inl e
          | Inr v \<Rightarrow>
             buf_set im y x
               (flt_div (Fin (sqrt (Re v * Re v + Im v * Im v) - mn)) (Fin (mx - mn))))
       (cells (size_y img) (size_x img)) img"

subsection \<open>Rescaling: \<^verbatim>\<open>shift_fft_image\<close>\<close>

text \<open>The local \<^verbatim>\<open>apply\<close>: run a function at every \<open>(i, j)\<close> of the buffer.\<close>

definition apply_fn ::
  "'a image_buffer \<Rightarrow> (nat \<times> nat \<Rightarrow> 's \<Rightarrow> error + 's) \<Rightarrow> 's \<Rightarrow> error + 's" where
  "apply_fn buf f s = for_each f (cells (size_y buf) (size_x buf)) s"

definition shift_fft_image :: "flt image_buffer \<Rightarrow> error + flt image_buffer" where
  "shift_fft_image dat =
     (case buf_get dat 0 0 of Inl e \<Rightarrow> Inl e | Inr d00 \<Rightarrow>
      case apply_fn dat
             (\<lambda>(i, j) mn. case buf_get dat i j of
                             Inl e \<Rightarrow> Inl e
                           | Inr v \<Rightarrow> Inr (if flt_less v mn then v else mn)) d00 of
        Inl e \<Rightarrow> Inl e | Inr mn \<Rightarrow>
      case apply_fn dat
             (\<lambda>(i, j) d. case buf_get d i j of
                            Inl e \<Rightarrow> Inl e
                          | Inr v \<Rightarrow> buf_set d i j (flt_sub v mn)) dat of
        Inl e \<Rightarrow> Inl e | Inr shifted \<Rightarrow>
      case apply_fn dat
             (\<lambda>(i, j) mx. case buf_get shifted i j of
                             Inl e \<Rightarrow> Inl e
                           | Inr v \<Rightarrow> Inr (if flt_less mx v then v else mx)) d00 of
        Inl e \<Rightarrow> Inl e | Inr mx \<Rightarrow>
      apply_fn dat
        (\<lambda>(i, j) d. case buf_get d i j of
                       Inl e \<Rightarrow> Inl e
                     | Inr v \<Rightarrow> buf_set d i j (flt_mul v (flt_div (Fin 255) mx))) shifted)"

subsection \<open>The pipeline of \<^verbatim>\<open>on_drop\<close> for a PNG file\<close>

text \<open>
  The body of the \<^verbatim>\<open>ext == "png"\<close> branch, in three steps: up to the transform, up to the
  loop "Convert back to image type", and up to the buffer \<^verbatim>\<open>centered\<close> that
  \<^verbatim>\<open>upload_luminance\<close> receives.
\<close>

definition on_drop_spectrum :: "decoded \<Rightarrow> error + real image_buffer \<times> complex list" where
  "on_drop_spectrum dec =
     (case png_to_luminance dec of Inl e \<Rightarrow> Inl e | Inr img0 \<Rightarrow>
      case mean_center img0 of Inl e \<Rightarrow> Inl e | Inr (img, arr0) \<Rightarrow>
      case compute_fft_2d arr0 (size_x img) (size_y img) of Inl e \<Rightarrow> Inl e | Inr arr \<Rightarrow>
        Inr (img, arr))"

definition on_drop_normalized :: "decoded \<Rightarrow> error + flt image_buffer" where
  "on_drop_normalized dec =
     (case on_drop_spectrum dec of Inl e \<Rightarrow> Inl e | Inr (img, arr) \<Rightarrow>
      case spectrum_min_max arr (size_x img * size_y img) of Inl e \<Rightarrow> Inl e | Inr (mn, mx) \<Rightarrow>
        normalize_image arr mn mx (as_flt_buffer img))"

definition on_drop_png :: "decoded \<Rightarrow> error + flt image_buffer" where
  "on_drop_png dec =
     (case on_drop_normalized dec of Inl e \<Rightarrow> Inl e | Inr img \<Rightarrow>
      case shift_fft_image img of Inl e \<Rightarrow> Inl e | Inr shifted \<Rightarrow>
        center_fft_image shifted (new_image_buffer (size_x shifted) (size_y shifted) (Fin 0)))"

text \<open>
  The input contract of the pipeline: positive sizes, three or four channels, and one
  byte for every sample.
\<close>

definition valid_decoded :: "decoded \<Rightarrow> bool" where
  "valid_decoded dec =
     (0 < img_width dec \<and> 0 < img_height dec \<and> (nBytes dec = 3 \<or> nBytes dec = 4) \<and>
      length (bytes dec) = nBytes dec * (img_height dec * img_width dec))"

section \<open>Loops over memory\<close>

lemma for_each_append:
  "for_each f (xs @ ys) s = (case for_each f xs s of Inl e \<Rightarrow> Inl e | Inr s' \<Rightarrow> for_each f ys s')"
  by (induction xs arbitrary: s) (auto split: sum.splits)

lemma for_each_cong:
  "(\<And>k s. k \<in> set ks \<Longrightarrow> f k s = g k s) \<Longrightarrow> for_each f ks s = for_each g ks s"
  by (induction ks arbitrary: s) (auto split: sum.splits)

lemma for_each_map: "for_each f (map h ks) s = for_each (\<lambda>k. f (h k)) ks s"
  by (induction ks arbitrary: s) (auto split: sum.splits)

lemma cells_Suc: "cells (Suc h) w = cells h w @ map (Pair h) [0..<w]"
  by (simp add: cells_def product_concat_map)

lemma cells_flat: "map (\<lambda>(i, j). i * w + j) (cells h w) = [0..<h * w]"
proof (induction h)
  case 0
  show ?case by (simp add: cells_def)
next
  case (Suc h)
  have "map ((\<lambda>(i, j). i * w + j) \<circ> Pair h) [0..<w] = map (\<lambda>j. j + h * w) [0..<w]"
    by (simp add: add.commute)
  also have "\<dots> = [h * w..<h * w + w]"
    by (simp add: map_add_upt add.commute)
  finally have last: "map ((\<lambda>(i, j). i * w + j) \<circ> Pair h) [0..<w] = [h * w..<h * w + w]" .
  have "[0..<h * w + w] = [0..<h * w] @ [h * w..<h * w + w]"
    by (rule upt_add_eq_append) simp
  then show ?case using Suc last
    by (simp add: cells_Suc add.commute)
qed

lemma set_cells: "set (cells h w) = {0..<h} \<times> {0..<w}"
  by (auto simp: cells_def)

lemma for_each_cells:
  "for_each F (cells h w) s = for_each (\<lambda>k. F (k div w, k mod w)) [0..<h * w] s"
proof -
  have "for_each F (cells h w) s = for_each (\<lambda>p. F ((case p of (i, j) \<Rightarrow> i * w + j) div w, (case p of (i, j) \<Rightarrow> i * w + j) mod w)) (cells h w) s"
    by (rule for_each_cong) (auto simp: set_cells)
  also have "\<dots> = for_each (\<lambda>k. F (k div w, k mod w)) (map (\<lambda>(i, j). i * w + j) (cells h w)) s"
    by (simp add: for_each_map)
  finally show ?thesis by (simp add: cells_flat)
qed


lemma for_each_store:
  "n \<le> length m \<Longrightarrow>
   for_each (\<lambda>k m. store m k (g k)) [0..<n] m = Inr (map g [0..<n] @ drop n m)"
proof (induction n)
  case 0
  show ?case by simp
next
  case (Suc n)
  then have n: "n < length m" by simp
  have "(map g [0..<n] @ drop n m)[n := g n] = map g [0..<n] @ (drop n m)[0 := g n]"
    by (simp add: list_update_append)
  also have "(drop n m)[0 := g n] = g n # drop (Suc n) m"
    using n by (simp add: Cons_nth_drop_Suc[symmetric])
  finally show ?case using Suc n
    by (simp add: for_each_append store_def)
qed

lemma for_each_copy:
  assumes "n \<le> length m" and "\<And>k. k < n \<Longrightarrow> ix k < length src"
  shows "for_each (\<lambda>k m. case load src (ix k) of Inl e \<Rightarrow> Inl e | Inr v \<Rightarrow> store m k (g v))
           [0..<n] m = Inr (map (\<lambda>k. g (src ! ix k)) [0..<n] @ drop n m)"
proof -
  have "for_each (\<lambda>k m. case load src (ix k) of Inl e \<Rightarrow> Inl e | Inr v \<Rightarrow> store m k (g v))
           [0..<n] m = for_each (\<lambda>k m. store m k (g (src ! ix k))) [0..<n] m"
    by (rule for_each_cong) (simp add: load_def assms(2))
  then show ?thesis by (simp add: for_each_store assms(1))
qed

lemma for_each_update:
  "n \<le> length m \<Longrightarrow>
   for_each (\<lambda>k m. case load m k of Inl e \<Rightarrow> Inl e | Inr v \<Rightarrow> store m k (g v)) [0..<n] m
     = Inr (map g (take n m) @ drop n m)"
proof (induction n)
  case 0
  show ?case by simp
next
  case (Suc n)
  then have n: "n < length m" by simp
  have "(map g (take n m) @ drop n m)[n := g (m ! n)] = map g (take n m) @ (drop n m)[0 := g (m ! n)]"
    using n by (simp add: list_update_append)
  also have "(drop n m)[0 := g (m ! n)] = g (m ! n) # drop (Suc n) m"
    using n by (simp add: Cons_nth_drop_Suc[symmetric])
  finally show ?case using Suc n
    by (simp add: for_each_append store_def load_def nth_append take_Suc_conv_app_nth)
qed

lemma for_each_read:
  "n \<le> length src \<Longrightarrow>
   for_each (\<lambda>k s. case load src k of Inl e \<Rightarrow> Inl e | Inr v \<Rightarrow> Inr (g v s)) [0..<n] s
     = Inr (fold g (take n src) s)"
proof (induction n)
  case 0
  show ?case by simp
next
  case (Suc n)
  then show ?case
    by (simp add: for_each_append load_def take_Suc_conv_app_nth)
qed

lemma for_each_lift:
  assumes "\<And>k s. F k (emb s) = (case f k s of Inl e \<Rightarrow> Inl e | Inr s' \<Rightarrow> Inr (emb s'))"
  shows "for_each F ks (emb s) = (case for_each f ks s of Inl e \<Rightarrow> Inl e | Inr s' \<Rightarrow> Inr (emb s'))"
  by (induction ks arbitrary: s) (auto simp: assms split: sum.splits)

lemma for_each_buf:
  assumes "\<And>k m. F (k div w, k mod w) (buf\<lparr>storage := m\<rparr>) =
             (case f k m of Inl e \<Rightarrow> Inl e | Inr m' \<Rightarrow> Inr (buf\<lparr>storage := m'\<rparr>))"
  shows "for_each F (cells h w) buf =
           (case for_each f [0..<h * w] (storage buf) of
              Inl e \<Rightarrow> Inl e | Inr m' \<Rightarrow> Inr (buf\<lparr>storage := m'\<rparr>))"
proof -
  have "for_each (\<lambda>k. F (k div w, k mod w)) [0..<h * w] (buf\<lparr>storage := storage buf\<rparr>) =
           (case for_each f [0..<h * w] (storage buf) of
              Inl e \<Rightarrow> Inl e | Inr m' \<Rightarrow> Inr (buf\<lparr>storage := m'\<rparr>))"
    by (rule for_each_lift) (rule assms)
  then show ?thesis by (simp add: for_each_cells)
qed

lemma for_each_store_buf:
  assumes "size_x buf = w" "h * w \<le> length (storage buf)"
  shows "for_each (\<lambda>(y, x) b. buf_set b y x (g (y * w + x))) (cells h w) buf
     = Inr (buf\<lparr>storage := map g [0..<h * w] @ drop (h * w) (storage buf)\<rparr>)"
proof -
  let ?emb = "\<lambda>m. buf\<lparr>storage := m\<rparr>"
  have "for_each (\<lambda>(y, x) b. buf_set b y x (g (y * w + x))) (cells h w) (?emb (storage buf))
      = (case for_each (\<lambda>k m. store m k (g k)) [0..<h * w] (storage buf) of
           Inl e \<Rightarrow> Inl e | Inr m' \<Rightarrow> Inr (?emb m'))"
    unfolding for_each_cells
    by (rule for_each_lift) (simp add: buf_set_def assms(1) split: sum.splits)
  then show ?thesis by (simp add: for_each_store assms(2))
qed

lemma for_each_read_cells:
  assumes "size_x buf = w" "h * w \<le> length (storage buf)"
  shows "for_each (\<lambda>(i, j) s. case buf_get buf i j of Inl e \<Rightarrow> Inl e | Inr v \<Rightarrow> Inr (g v s))
           (cells h w) s = Inr (fold g (take (h * w) (storage buf)) s)"
proof -
  have "for_each (\<lambda>(i, j) s. case buf_get buf i j of Inl e \<Rightarrow> Inl e | Inr v \<Rightarrow> Inr (g v s))
           (cells h w) s
      = for_each (\<lambda>k s. case load (storage buf) k of Inl e \<Rightarrow> Inl e | Inr v \<Rightarrow> Inr (g v s))
           [0..<h * w] s"
    unfolding for_each_cells
    by (rule for_each_cong) (simp add: buf_get_def assms(1))
  then show ?thesis by (simp add: for_each_read assms(2))
qed

lemma for_each_update_cells:
  assumes "size_x buf = w" "h * w \<le> length (storage buf)"
  shows "for_each (\<lambda>(i, j) d. case buf_get d i j of Inl e \<Rightarrow> Inl e | Inr v \<Rightarrow> buf_set d i j (g v))
           (cells h w) buf
       = Inr (buf\<lparr>storage := map g (take (h * w) (storage buf)) @ drop (h * w) (storage buf)\<rparr>)"
proof -
  have "for_each (\<lambda>(i, j) d. case buf_get d i j of Inl e \<Rightarrow> Inl e | Inr v \<Rightarrow> buf_set d i j (g v))
           (cells h w) buf
      = (case for_each (\<lambda>k m. case load m k of Inl e \<Rightarrow> Inl e | Inr v \<Rightarrow> store m k (g v))
                [0..<h * w] (storage buf) of
           Inl e \<Rightarrow> Inl e | Inr m' \<Rightarrow> Inr (buf\<lparr>storage := m'\<rparr>))"
    by (rule for_each_buf) (simp add: buf_get_def buf_set_def assms(1) split: sum.splits)
  then show ?thesis by (simp add: for_each_update assms(2))
qed

lemma for_each_scatter:
  assumes "distinct (map ix ks)" and "\<And>y. y \<in> set ks \<Longrightarrow> ix y < length d"
  shows "\<exists>d'. for_each (\<lambda>y d. store d (ix y) (g y)) ks d = Inr d' \<and> length d' = length d \<and>
           (\<forall>y \<in> set ks. d' ! ix y = g y) \<and> (\<forall>k. k \<notin> ix ` set ks \<longrightarrow> d' ! k = d ! k)"
  using assms
proof (induction ks arbitrary: d)
  case Nil
  show ?case by simp
next
  case (Cons a ks)
  let ?d1 = "d[ix a := g a]"
  have a: "ix a < length d" using Cons.prems(2) by simp
  have "\<exists>d'. for_each (\<lambda>y d. store d (ix y) (g y)) ks ?d1 = Inr d' \<and> length d' = length ?d1 \<and>
           (\<forall>y \<in> set ks. d' ! ix y = g y) \<and> (\<forall>k. k \<notin> ix ` set ks \<longrightarrow> d' ! k = ?d1 ! k)"
    using Cons.prems by (intro Cons.IH) simp_all
  then obtain d' where d': "for_each (\<lambda>y d. store d (ix y) (g y)) ks ?d1 = Inr d'"
      "length d' = length d" "\<forall>y \<in> set ks. d' ! ix y = g y"
      "\<forall>k. k \<notin> ix ` set ks \<longrightarrow> d' ! k = ?d1 ! k"
    by auto
  have notin: "ix a \<notin> ix ` set ks" using Cons.prems(1) by auto
  have "d' ! ix a = g a" using d'(4) notin a by simp
  moreover have "\<forall>k. k \<notin> ix ` set (a # ks) \<longrightarrow> d' ! k = d ! k"
    using d'(4) by auto
  ultimately show ?case using d' a by (auto simp: store_def)
qed

lemma for_each_error:
  "for_each f ks s = Inl e \<Longrightarrow> \<exists>k \<in> set ks. \<exists>s'. f k s' = Inl e"
  by (induction ks arbitrary: s) (auto split: sum.splits)

lemma cell_less: "y < h \<Longrightarrow> x < w \<Longrightarrow> y * w + x < h * (w::nat)"
proof -
  assume y: "y < h" and x: "x < w"
  have "y * w + x < y * w + w" using x by simp
  also have "\<dots> = Suc y * w" by simp
  also have "\<dots> \<le> h * w" using y by (intro mult_le_mono1) simp
  finally show ?thesis .
qed

lemma replicate_numeral_Cons:
  "replicate (numeral k) x = x # replicate (pred_numeral k) x"
  by (simp add: numeral_eq_Suc)

text \<open>The equations that evaluate the program on a concrete input.\<close>

lemmas eval_defs = on_drop_png_def on_drop_normalized_def on_drop_spectrum_def
  png_to_luminance_def mean_center_def compute_mean_def compute_fft_2d_def fft_row_def fft_col_def
  spectrum_min_max_def normalize_image_def as_flt_buffer_def shift_fft_image_def apply_fn_def
  center_fft_image_def center_px_def center_src_def
  cells_def load_def load_range_def store_def buf_get_def buf_set_def new_image_buffer_def
  to_luminance_def as_float_def kissfft_transform_def
  flt_of_exact_def FLT_OVERFLOW_def
  upt_conv_Cons replicate_numeral_Cons complex_eq_iff

section \<open>Quadrant centering\<close>

lemma center_fft_image_ok:
  assumes sz: "size_x out = size_x inp"
    and len: "length (storage out) = size_y inp * size_x inp"
    and inb: "\<And>k. k < size_y inp * size_x inp \<Longrightarrow> center_flat (size_x inp) (size_y inp) k < length (storage inp)"
  shows "center_fft_image inp out =
           Inr (out\<lparr>storage := map (\<lambda>k. storage inp ! center_flat (size_x inp) (size_y inp) k)
                                   [0..<size_y inp * size_x inp]\<rparr>)"
proof -
  let ?w = "size_x inp" and ?h = "size_y inp"
  let ?f = "\<lambda>k m. case load (storage inp) (center_flat ?w ?h k) of
                      Inl e \<Rightarrow> Inl e | Inr v \<Rightarrow> store m k (id v)"
  let ?emb = "\<lambda>m. out\<lparr>storage := m\<rparr>"
  have body: "center_px inp (k div ?w, k mod ?w) (?emb m) =
        (case ?f k m of Inl e \<Rightarrow> Inl e | Inr m' \<Rightarrow> Inr (?emb m'))" for k m
    by (simp add: center_px_def center_flat_def buf_get_def buf_set_def sz
          split: prod.splits sum.splits)
  have "center_fft_image inp (?emb (storage out)) =
          (case for_each ?f [0..<?h * ?w] (storage out) of Inl e \<Rightarrow> Inl e | Inr m' \<Rightarrow> Inr (?emb m'))"
    unfolding center_fft_image_def for_each_cells
    by (rule for_each_lift) (rule body)
  moreover have "for_each ?f [0..<?h * ?w] (storage out) =
      Inr (map (\<lambda>k. id (storage inp ! center_flat ?w ?h k)) [0..<?h * ?w] @ drop (?h * ?w) (storage out))"
    by (rule for_each_copy) (simp_all add: len inb)
  ultimately show ?thesis by (simp add: len)
qed

lemma center_src_involution:
  assumes "(h = 1 \<and> (w = 1 \<or> even w \<and> 0 < w)) \<or> (even h \<and> 0 < h \<and> w = h)"
  shows "\<forall>p \<in> coords w h. center_src w h p \<in> coords w h \<and> center_src w h (center_src w h p) = p"
  using assms
  by (auto simp: coords_def center_src_def Let_def elim!: evenE)

lemma center_flat_involution:
  assumes dims: "(h = 1 \<and> (w = 1 \<or> even w \<and> 0 < w)) \<or> (even h \<and> 0 < h \<and> w = h)"
    and k: "k < h * w"
  shows "center_flat w h k < h * w" and "center_flat w h (center_flat w h k) = k"
proof -
  have w: "0 < w" using k by (cases w) auto
  obtain y x where yx: "center_src w h (k div w, k mod w) = (y, x)"
    by (cases "center_src w h (k div w, k mod w)")
  have "k div w < h" using k w by (simp add: less_mult_imp_div_less)
  then have p: "(k div w, k mod w) \<in> coords w h"
    using w by (simp add: coords_def)
  with center_src_involution[OF dims] yx
  have mem: "(y, x) \<in> coords w h" and again: "center_src w h (y, x) = (k div w, k mod w)"
    by force+
  from mem have y: "y < h" and x: "x < w" by (simp_all add: coords_def)
  have flat: "center_flat w h k = y * w + x" by (simp add: center_flat_def yx)
  have "y * w + x < y * w + w" using x by simp
  also have "\<dots> = Suc y * w" by simp
  also have "\<dots> \<le> h * w" using y by (intro mult_le_mono1) simp
  finally show "center_flat w h k < h * w" by (simp add: flat)
  have dm: "(y * w + x) div w = y" "(y * w + x) mod w = x" using x by simp_all
  have "center_flat w h (y * w + x) = k div w * w + k mod w"
    unfolding center_flat_def dm again by simp
  then show "center_flat w h (center_flat w h k) = k"
    by (simp add: flat)
qed


lemma center_src_in_bounds_iff:
  assumes "0 < w" and "0 < h"
  shows "(\<forall>p \<in> coords w h. center_src w h p \<in> coords w h)
           \<longleftrightarrow> (h div 2 = 0 \<or> h div 2 + w div 2 \<le> h)"
proof
  assume all: "\<forall>p \<in> coords w h. center_src w h p \<in> coords w h"
  show "h div 2 = 0 \<or> h div 2 + w div 2 \<le> h"
  proof (rule disjCI)
    assume "\<not> h div 2 + w div 2 \<le> h"
    show "h div 2 = 0"
    proof (rule ccontr)
      assume "h div 2 \<noteq> 0"
      then have p: "(h div 2 - 1, w - 1) \<in> coords w h" and i: "h div 2 - 1 < h div 2"
        using assms by (auto simp: coords_def)
      have j: "\<not> w - 1 < w div 2" using assms by linarith
      have "center_src w h (h div 2 - 1, w - 1) = (h div 2 - 1 + w div 2, w - 1 - w div 2)"
        using i j by (simp add: center_src_def Let_def)
      with all p have "h div 2 - 1 + w div 2 < h" by (fastforce simp: coords_def)
      with \<open>\<not> h div 2 + w div 2 \<le> h\<close> \<open>h div 2 \<noteq> 0\<close> show False by linarith
    qed
  qed
next
  assume "h div 2 = 0 \<or> h div 2 + w div 2 \<le> h"
  then show "\<forall>p \<in> coords w h. center_src w h p \<in> coords w h"
    using assms by (auto simp: coords_def center_src_def Let_def)
qed

text \<open>
  C2 (the code departs from the claim). On a buffer 2 wide and 4 high, the claim's
  \<open>out(0, 1) = in(0 + halfHeight, 1 - halfWidth) = in(2, 0)\<close>; the loop body reads
  \<open>in(0 + halfWidth, 1 - halfWidth) = in(1, 0)\<close>. With the samples numbered by their
  index, the output holds sample 2 twice and never sample 6.
\<close>

theorem center_fft_image_reads_row_plus_halfWidth:
  "center_src 2 4 (0, 1) = (1, 0) \<and>
   center_fft_image \<lparr>size_x = 2, size_y = 4, storage = [0, 1, 2, 3, 4, 5, 6, 7 :: nat]\<rparr>
       (new_image_buffer 2 4 0)
     = Inr \<lparr>size_x = 2, size_y = 4, storage = [5, 2, 7, 4, 1, 0, 3, 2]\<rparr>"
  by code_simp

text \<open>
  C4 (the code departs from the claim). On a buffer 4 wide and 2 high, the loop body at
  \<open>(i, j) = (0, 2)\<close> reads input row \<open>0 + halfWidth = 2\<close>, which is not below the height
  2: the read is outside the allocation.
\<close>

theorem center_fft_image_out_of_bounds:
  "center_src 4 2 (0, 2) = (2, 0) \<and>
   center_fft_image \<lparr>size_x = 4, size_y = 2, storage = [0, 1, 2, 3, 4, 5, 6, 7 :: nat]\<rparr>
       (new_image_buffer 4 2 0)
     = Inl OutOfBoundsAccess"
  by code_simp

text \<open>
  C5, as the code has it. The claim is stated for every width and height. For an odd
  dimension above 1 the split at \<open>n div 2\<close> sends two output rows (or columns) to the same
  input row (or column), as the 3 by 3 buffer below shows.
  Amended claim: when the height is 1 and the width is 1 or even, or when the height is
  even and the width equals the height, the coordinate map of \<^verbatim>\<open>center_fft_image\<close> is a
  bijection on the pixel coordinates and its own inverse, and centering a buffer twice
  gives the buffer back.
\<close>

theorem center_fft_image_bijection:
  fixes inp :: "'a image_buffer"
  assumes dims: "(h = 1 \<and> (w = 1 \<or> even w \<and> 0 < w)) \<or> (even h \<and> 0 < h \<and> w = h)"
    and inp: "size_x inp = w" "size_y inp = h" "length (storage inp) = h * w"
  shows "bij_betw (center_src w h) (coords w h) (coords w h) \<and>
         (\<forall>p \<in> coords w h. center_src w h (center_src w h p) = p) \<and>
         (\<exists>mid. center_fft_image inp (new_image_buffer w h f1) = Inr mid \<and>
                center_fft_image mid (new_image_buffer w h f2) = Inr inp)"
proof (intro conjI)
  note inv = center_src_involution[OF dims]
  show "bij_betw (center_src w h) (coords w h) (coords w h)"
    by (rule bij_betw_byWitness[where f' = "center_src w h"]) (use inv in auto)
  show "\<forall>p \<in> coords w h. center_src w h (center_src w h p) = p"
    using inv by blast
  let ?mid = "(new_image_buffer w h f1)\<lparr>storage := map (\<lambda>k. storage inp ! center_flat w h k) [0..<h * w]\<rparr>"
  have one: "center_fft_image inp (new_image_buffer w h f1) = Inr ?mid"
    using center_fft_image_ok[of "new_image_buffer w h f1" inp]
      center_flat_involution(1)[OF dims]
    by (simp add: inp new_image_buffer_def mult.commute)
  have "center_fft_image ?mid (new_image_buffer w h f2) =
          Inr ((new_image_buffer w h f2)
                 \<lparr>storage := map (\<lambda>k. storage ?mid ! center_flat w h k) [0..<h * w]\<rparr>)"
    using center_fft_image_ok[of "new_image_buffer w h f2" ?mid]
      center_flat_involution(1)[OF dims]
    by (simp add: new_image_buffer_def mult.commute)
  moreover have "map (\<lambda>k. storage ?mid ! center_flat w h k) [0..<h * w] = storage inp"
    by (rule nth_equalityI)
      (simp_all add: inp center_flat_involution[OF dims])
  ultimately have two: "center_fft_image ?mid (new_image_buffer w h f2) = Inr inp"
    by (simp add: new_image_buffer_def inp)
  from one two
  show "\<exists>mid. center_fft_image inp (new_image_buffer w h f1) = Inr mid \<and>
              center_fft_image mid (new_image_buffer w h f2) = Inr inp"
    by blast
qed

theorem center_fft_image_bijection_witness:
  "((2::nat) = 1 \<and> ((2::nat) = 1 \<or> even (2::nat) \<and> 0 < (2::nat))
      \<or> even (2::nat) \<and> 0 < (2::nat) \<and> (2::nat) = 2) \<and>
   size_x \<lparr>size_x = 2, size_y = 2, storage = [10, 20, 30, 40 :: nat]\<rparr> = 2 \<and>
   size_y \<lparr>size_x = 2, size_y = 2, storage = [10, 20, 30, 40 :: nat]\<rparr> = 2 \<and>
   length (storage \<lparr>size_x = 2, size_y = 2, storage = [10, 20, 30, 40 :: nat]\<rparr>) = 2 * 2 \<and>
   bij_betw (center_src 2 2) (coords 2 2) (coords 2 2) \<and>
   center_src 2 2 (center_src 2 2 (0, 1)) = (0, 1) \<and>
   (\<exists>mid. center_fft_image \<lparr>size_x = 2, size_y = 2, storage = [10, 20, 30, 40 :: nat]\<rparr>
             (new_image_buffer 2 2 0) = Inr mid \<and>
          center_fft_image mid (new_image_buffer 2 2 0)
            = Inr \<lparr>size_x = 2, size_y = 2, storage = [10, 20, 30, 40]\<rparr>)"
  using center_fft_image_bijection
    [of 2 2 "\<lparr>size_x = 2, size_y = 2, storage = [10, 20, 30, 40 :: nat]\<rparr>" 0 0]
  by (simp add: coords_def)

theorem center_src_3_3_not_bijective:
  "\<not> bij_betw (center_src 3 3) (coords 3 3) (coords 3 3)"
proof
  assume "bij_betw (center_src 3 3) (coords 3 3) (coords 3 3)"
  then have "inj_on (center_src 3 3) (coords 3 3)"
    by (rule bij_betw_imp_inj_on)
  moreover have "center_src 3 3 (0, 0) = center_src 3 3 (2, 0)"
    by (simp add: center_src_def)
  moreover have "(0, 0) \<in> coords 3 3" "(2, 0) \<in> coords 3 3"
    by (simp_all add: coords_def)
  ultimately have "((0::nat), (0::nat)) = (2, 0)"
    by (rule inj_onD)
  then show False by simp
qed

section \<open>Luminance extraction\<close>

lemma png_bounds:
  assumes "3 \<le> (n::nat)" "k < m" "n * m \<le> l"
  shows "n * k + 2 < l"
proof -
  have "n * Suc k \<le> n * m" using assms(2)
    by (intro mult_le_mono2) simp
  then show ?thesis using assms(1,3) by simp
qed

lemma png_to_luminance_ok:
  assumes n: "3 \<le> nBytes dec"
    and len: "nBytes dec * (img_height dec * img_width dec) \<le> length (bytes dec)"
  shows "png_to_luminance dec =
     Inr \<lparr>size_x = img_width dec, size_y = img_height dec,
          storage = map (\<lambda>k. to_luminance (as_float (bytes dec ! (nBytes dec * k)))
                                           (as_float (bytes dec ! (nBytes dec * k + 1)))
                                           (as_float (bytes dec ! (nBytes dec * k + 2))))
                        [0..<img_height dec * img_width dec]\<rparr>"
proof -
  let ?w = "img_width dec" and ?h = "img_height dec" and ?n = "nBytes dec"
  let ?g = "\<lambda>k. to_luminance (as_float (bytes dec ! (?n * k)))
               (as_float (bytes dec ! (?n * k + 1))) (as_float (bytes dec ! (?n * k + 2)))"
  have "png_to_luminance dec =
      for_each (\<lambda>(y, x) b. buf_set b y x (?g (y * ?w + x))) (cells ?h ?w) (new_image_buffer ?w ?h 0)"
    unfolding png_to_luminance_def Let_def
  proof (rule for_each_cong)
    fix k :: "nat \<times> nat" and s :: "real image_buffer"
    assume "k \<in> set (cells ?h ?w)"
    then obtain y x where k: "k = (y, x)" and y: "y < ?h" and x: "x < ?w"
      by (auto simp: set_cells)
    have "y * ?w + x < y * ?w + ?w" using x by simp
    also have "\<dots> = Suc y * ?w" by simp
    also have "\<dots> \<le> ?h * ?w" using y by (intro mult_le_mono1) simp
    finally have "y * ?w + x < ?h * ?w" .
    from png_bounds[OF n this len]
    show "(case k of (y, x) \<Rightarrow> \<lambda>buffer.
             case load (bytes dec) (?n * (y * ?w + x) + 0) of Inl e \<Rightarrow> Inl e | Inr r \<Rightarrow>
             case load (bytes dec) (?n * (y * ?w + x) + 1) of Inl e \<Rightarrow> Inl e | Inr g \<Rightarrow>
             case load (bytes dec) (?n * (y * ?w + x) + 2) of Inl e \<Rightarrow> Inl e | Inr b \<Rightarrow>
               buf_set buffer y x (to_luminance (as_float r) (as_float g) (as_float b))) s
        = (case k of (y, x) \<Rightarrow> \<lambda>b. buf_set b y x (?g (y * ?w + x))) s"
      by (simp add: k load_def)
  qed
  also have "\<dots> = Inr ((new_image_buffer ?w ?h 0)\<lparr>storage := map ?g [0..<?h * ?w] @ drop (?h * ?w) (storage (new_image_buffer ?w ?h (0::real)))\<rparr>)"
    by (rule for_each_store_buf) (simp_all add: new_image_buffer_def mult.commute)
  finally show ?thesis by (simp add: new_image_buffer_def mult.commute)
qed

lemma as_float_eq: "as_float x = real (unat x) / 255"
  unfolding as_float_def Let_def by (simp only: diff_zero)

lemma as_float_bounds: "0 \<le> as_float x" "as_float x \<le> 1"
proof -
  have nn: "0 \<le> real (unat x)" by (rule of_nat_0_le_iff)
  have "unat x < 256" using unsigned_less[of x] by simp
  then have le: "real (unat x) \<le> 255" by linarith
  show "0 \<le> as_float x" unfolding as_float_eq using nn by linarith
  show "as_float x \<le> 1" unfolding as_float_eq using le by linarith
qed

lemma to_luminance_bounds:
  assumes "0 \<le> r" "r \<le> 1" "0 \<le> g" "g \<le> 1" "0 \<le> b" "b \<le> 1"
  shows "0 \<le> to_luminance r g b" "to_luminance r g b \<le> 1"
  using assms by (simp_all add: to_luminance_def)

text \<open>
  C9. For a decoded buffer with three or four channels and one byte per sample,
  \<^verbatim>\<open>png_to_luminance\<close> succeeds and keeps the size. At every pixel \<open>(y, x)\<close> the three
  samples it reads lie inside the buffer, each is normalised to \<open>s / 255\<close>, the output
  sample is \<open>0.2126 R + 0.7152 G + 0.0722 B\<close> of the normalised samples and lies in
  \<open>[0, 1]\<close>. With four channels the fourth sample of any pixel can be replaced by any
  byte without changing the result: alpha is ignored. Floating-point rounding is not
  modelled.
\<close>

theorem png_to_luminance_pixel:
  assumes ch: "nBytes dec = 3 \<or> nBytes dec = 4"
    and len: "length (bytes dec) = nBytes dec * (img_height dec * img_width dec)"
    and y: "y < img_height dec" and x: "x < img_width dec"
  shows "\<exists>buffer. png_to_luminance dec = Inr buffer \<and>
           size_x buffer = img_width dec \<and> size_y buffer = img_height dec \<and>
           (let p = nBytes dec * (y * img_width dec + x);
                r = bytes dec ! p; g = bytes dec ! (p + 1); b = bytes dec ! (p + 2);
                v = storage buffer ! (y * img_width dec + x)
            in p + 2 < length (bytes dec) \<and>
               as_float r = real (unat r) / 255 \<and>
               as_float g = real (unat g) / 255 \<and>
               as_float b = real (unat b) / 255 \<and>
               v = 0.2126 * (real (unat r) / 255) + 0.7152 * (real (unat g) / 255)
                     + 0.0722 * (real (unat b) / 255) \<and>
               0 \<le> v \<and> v \<le> 1) \<and>
           (\<forall>q a. nBytes dec = 4 \<longrightarrow>
              png_to_luminance (dec\<lparr>bytes := (bytes dec)[4 * q + 3 := a]\<rparr>) = Inr buffer)"
proof -
  let ?w = "img_width dec" and ?h = "img_height dec" and ?n = "nBytes dec"
  let ?lum = "\<lambda>bs k. to_luminance (as_float (bs ! (?n * k))) (as_float (bs ! (?n * k + 1)))
                 (as_float (bs ! (?n * k + 2)))"
  let ?buffer = "\<lparr>size_x = ?w, size_y = ?h, storage = map (?lum (bytes dec)) [0..<?h * ?w]\<rparr>"
  let ?k = "y * ?w + x"
  have n3: "3 \<le> ?n" using ch by auto
  have run: "png_to_luminance dec = Inr ?buffer"
    using png_to_luminance_ok[OF n3] len by simp
  have k: "?k < ?h * ?w" by (rule cell_less[OF y x])
  have inb: "?n * ?k + 2 < length (bytes dec)"
    using png_bounds[OF n3 k] len by simp
  have v: "storage ?buffer ! ?k = ?lum (bytes dec) ?k"
    using k by simp
  have formula: "to_luminance (as_float r) (as_float g) (as_float b)
      = 0.2126 * (real (unat r) / 255) + 0.7152 * (real (unat g) / 255)
          + 0.0722 * (real (unat b) / 255)" for r g b
    by (simp only: to_luminance_def as_float_eq)
  have lo: "0 \<le> ?lum (bytes dec) ?k" and hi: "?lum (bytes dec) ?k \<le> 1"
    by (intro to_luminance_bounds as_float_bounds)+
  have pixel: "let p = ?n * ?k;
                r = bytes dec ! p; g = bytes dec ! (p + 1); b = bytes dec ! (p + 2);
                v = storage ?buffer ! ?k
            in p + 2 < length (bytes dec) \<and>
               as_float r = real (unat r) / 255 \<and>
               as_float g = real (unat g) / 255 \<and>
               as_float b = real (unat b) / 255 \<and>
               v = 0.2126 * (real (unat r) / 255) + 0.7152 * (real (unat g) / 255)
                     + 0.0722 * (real (unat b) / 255) \<and>
               0 \<le> v \<and> v \<le> 1"
    unfolding Let_def v
    using inb lo hi by (intro conjI as_float_eq formula)
  have alpha: "png_to_luminance (dec\<lparr>bytes := (bytes dec)[4 * q + 3 := a]\<rparr>) = Inr ?buffer"
    if four: "?n = 4" for q a
  proof -
    let ?dec = "dec\<lparr>bytes := (bytes dec)[4 * q + 3 := a]\<rparr>"
    have "png_to_luminance ?dec =
        Inr \<lparr>size_x = ?w, size_y = ?h, storage = map (?lum (bytes ?dec)) [0..<?h * ?w]\<rparr>"
      using png_to_luminance_ok[of ?dec] n3 len by simp
    moreover have "map (?lum (bytes ?dec)) [0..<?h * ?w] = map (?lum (bytes dec)) [0..<?h * ?w]"
    proof (rule map_cong[OF refl])
      fix j
      have "4 * j \<noteq> 4 * q + 3" "4 * j + 1 \<noteq> 4 * q + 3" "4 * j + 2 \<noteq> 4 * q + 3"
        by presburger+
      then show "?lum (bytes ?dec) j = ?lum (bytes dec) j"
        by (simp add: four)
    qed
    ultimately show ?thesis by simp
  qed
  show ?thesis
    using run pixel alpha by (intro exI[of _ ?buffer]) simp
qed

text \<open>
  The theorem at a single red pixel with alpha 77: the luminance is 0.2126, and it stays
  0.2126 when alpha is 200.
\<close>

theorem png_to_luminance_pixel_witness:
  "(nBytes \<lparr>img_width = 1, img_height = 1, nBytes = 4, bytes = [255, 0, 0, 77]\<rparr> = 3 \<or>
    nBytes \<lparr>img_width = 1, img_height = 1, nBytes = 4, bytes = [255, 0, 0, 77]\<rparr> = 4) \<and>
   length (bytes \<lparr>img_width = 1, img_height = 1, nBytes = 4, bytes = [255, 0, 0, 77]\<rparr>) = 4 * (1 * 1) \<and>
   (0::nat) < 1 \<and>
   png_to_luminance \<lparr>img_width = 1, img_height = 1, nBytes = 4, bytes = [255, 0, 0, 77]\<rparr>
     = Inr \<lparr>size_x = 1, size_y = 1, storage = [0.2126]\<rparr> \<and>
   png_to_luminance \<lparr>img_width = 1, img_height = 1, nBytes = 4, bytes = [255, 0, 0, 200]\<rparr>
     = Inr \<lparr>size_x = 1, size_y = 1, storage = [0.2126]\<rparr>"
  using png_to_luminance_pixel
    [of "\<lparr>img_width = 1, img_height = 1, nBytes = 4, bytes = [255, 0, 0, 77]\<rparr>" 0 0]
  by (simp add: png_to_luminance_def cells_def load_def buf_set_def store_def
        new_image_buffer_def to_luminance_def as_float_def)

text \<open>
  C7 (the code departs from the claim). \<^verbatim>\<open>png_to_luminance\<close> has no test of the channel
  count. For a one-channel (grey) pixel it reads the two samples behind the only one,
  outside the decoded buffer, where \<^verbatim>\<open>upload_png\<close> throws "unsupported number of
  channels"; a buffer with five samples per pixel is converted without complaint.
\<close>

theorem png_to_luminance_no_channel_check:
  "png_to_luminance \<lparr>img_width = 1, img_height = 1, nBytes = 1, bytes = [128]\<rparr>
     = Inl OutOfBoundsAccess \<and>
   upload_png \<lparr>img_width = 1, img_height = 1, nBytes = 1, bytes = [128]\<rparr>
     = Inl (RuntimeError ''unsupported number of channels'') \<and>
   png_to_luminance \<lparr>img_width = 1, img_height = 1, nBytes = 5, bytes = [255, 255, 255, 7, 9]\<rparr>
     = Inr \<lparr>size_x = 1, size_y = 1, storage = [1]\<rparr>"
  by (simp add: png_to_luminance_def upload_png_def cells_def load_def buf_set_def store_def
        new_image_buffer_def to_luminance_def as_float_def)

section \<open>Mean-centering\<close>

lemma fold_add_sum_list: "fold (\<lambda>v m. m + v) xs (a::real) = a + sum_list xs"
  by (induction xs arbitrary: a) simp_all

lemma compute_mean_ok:
  assumes "length (storage buf) = size_x buf * size_y buf"
  shows "compute_mean buf =
     Inr (if size_x buf * size_y buf = 0 then NaN
          else Fin (sum_list (storage buf) / real (size_x buf * size_y buf)))"
  unfolding compute_mean_def
  using for_each_read[of "size_x buf * size_y buf" "storage buf" "\<lambda>v m. m + v" 0]
  by (simp add: assms fold_add_sum_list)

lemma mean_center_ok:
  assumes len: "length (storage img) = size_x img * size_y img"
    and pos: "0 < size_x img * size_y img"
  shows "mean_center img =
     Inr (img, map (\<lambda>v. Complex (v - sum_list (storage img) / real (size_x img * size_y img)) 0)
                (storage img))"
proof -
  let ?n = "size_x img * size_y img"
  let ?mean = "sum_list (storage img) / real ?n"
  have mean: "compute_mean img = Inr (Fin ?mean)"
    using pos by (simp add: compute_mean_ok[OF len])
  have "for_each
          (\<lambda>(y, x) arr. case buf_get img y x of Inl e \<Rightarrow> Inl e
             | Inr v \<Rightarrow> (case Fin ?mean of
                          Fin m \<Rightarrow> store arr (y * size_x img + x) (Complex (v - m) 0)
                        | _ \<Rightarrow> Inl NonFiniteSample))
          (cells (size_y img) (size_x img)) (replicate ?n 0)
      = for_each (\<lambda>k arr. case load (storage img) k of Inl e \<Rightarrow> Inl e
                            | Inr v \<Rightarrow> store arr k (Complex (v - ?mean) 0))
          [0..<size_y img * size_x img] (replicate ?n 0)"
    unfolding for_each_cells
    by (rule for_each_cong) (simp add: buf_get_def split: sum.splits)
  also have "\<dots> = Inr (map (\<lambda>k. Complex (storage img ! k - ?mean) 0) [0..<size_y img * size_x img]
                        @ drop (size_y img * size_x img) (replicate ?n 0))"
    by (rule for_each_copy[where ix = "\<lambda>k. k"]) (simp_all add: len mult.commute)
  also have "map (\<lambda>k. Complex (storage img ! k - ?mean) 0) [0..<size_y img * size_x img]
       = map (\<lambda>v. Complex (v - ?mean) 0) (storage img)"
    by (rule nth_equalityI) (simp_all add: len mult.commute)
  also have "drop (size_y img * size_x img) (replicate ?n (0::complex)) = []"
    by (simp add: mult.commute)
  finally show ?thesis
    by (simp only: mean_center_def mean sum.case append_Nil2)
qed

text \<open>
  The stage can only fail with an access outside a buffer: when the buffer has samples
  the mean is finite, and when it has none the loop body never runs.
\<close>

lemma compute_mean_finite:
  assumes "0 < size_x buf * size_y buf" and "compute_mean buf = Inr mean"
  shows "\<exists>m. mean = Fin m"
  using assms by (auto simp: compute_mean_def split: sum.splits)

lemma mean_center_error:
  assumes "mean_center img = Inl e"
  shows "e = OutOfBoundsAccess"
proof (cases "compute_mean img")
  case (Inl e')
  then have "e' = e" using assms by (simp add: mean_center_def)
  moreover have "e' = OutOfBoundsAccess"
  proof -
    from Inl obtain e'' where
      "for_each (\<lambda>x m. case load (storage img) x of Inl e \<Rightarrow> Inl e | Inr v \<Rightarrow> Inr (m + v))
         [0..<size_x img * size_y img] 0 = Inl e''" "e'' = e'"
      by (auto simp: compute_mean_def split: sum.splits)
    then show ?thesis
      by (auto dest!: for_each_error simp: load_def split: if_splits)
  qed
  ultimately show ?thesis by simp
next
  case (Inr mean)
  let ?body = "\<lambda>(y, x) arr. case buf_get img y x of Inl e \<Rightarrow> Inl e
                 | Inr v \<Rightarrow> (case mean of
                              Fin m \<Rightarrow> store arr (y * size_x img + x) (Complex (v - m) 0)
                            | _ \<Rightarrow> Inl NonFiniteSample)"
  from assms Inr have "for_each ?body (cells (size_y img) (size_x img))
                         (replicate (size_x img * size_y img) 0) = Inl e"
    by (simp add: mean_center_def split: sum.splits)
  then obtain k s' where k: "k \<in> set (cells (size_y img) (size_x img))" "?body k s' = Inl e"
    by (blast dest: for_each_error)
  then have "0 < size_x img * size_y img" by (auto simp: set_cells)
  then obtain m where "mean = Fin m" using compute_mean_finite[OF _ Inr] by blast
  then show ?thesis
    using k(2) by (auto simp: buf_get_def load_def store_def split: if_splits prod.splits)
qed

lemma sum_list_centered:
  "sum_list (map (\<lambda>v. v - m) xs) = sum_list xs - real (length xs) * (m::real)"
  by (induction xs) (simp_all add: algebra_simps)

text \<open>
  C8. For an image buffer with \<open>size.x * size.y > 0\<close> samples the mean-centering stage
  succeeds and leaves the image buffer as it was. The complex array has
  \<open>size.x * size.y\<close> entries; the entry of pixel \<open>(y, x)\<close>, at index \<open>y * size.x + x\<close>, has
  the sample minus the arithmetic mean of all samples as real part and 0 as imaginary
  part; the mean of the real parts is exactly 0.
\<close>

theorem mean_center_zero_mean:
  assumes len: "length (storage img) = size_x img * size_y img"
    and pos: "0 < size_x img * size_y img"
  shows "\<exists>arr. mean_center img = Inr (img, arr) \<and>
           length arr = size_x img * size_y img \<and>
           (\<forall>y < size_y img. \<forall>x < size_x img.
              arr ! (y * size_x img + x) =
                Complex (storage img ! (y * size_x img + x)
                           - sum_list (storage img) / real (size_x img * size_y img)) 0) \<and>
           sum_list (map Re arr) / real (size_x img * size_y img) = 0"
proof -
  let ?n = "size_x img * size_y img"
  let ?mean = "sum_list (storage img) / real ?n"
  let ?arr = "map (\<lambda>v. Complex (v - ?mean) 0) (storage img)"
  have run: "mean_center img = Inr (img, ?arr)"
    by (rule mean_center_ok[OF len pos])
  have cellwise: "?arr ! (y * size_x img + x) = Complex (storage img ! (y * size_x img + x) - ?mean) 0"
    if "y < size_y img" "x < size_x img" for y x
  proof -
    have "y * size_x img + x < size_y img * size_x img" by (rule cell_less[OF that])
    then show ?thesis by (simp add: len mult.commute)
  qed
  have "map Re ?arr = map (\<lambda>v. v - ?mean) (storage img)" by simp
  then have "sum_list (map Re ?arr) = sum_list (storage img) - real ?n * ?mean"
    by (simp only: sum_list_centered len)
  also have "\<dots> = 0" using pos by simp
  finally have zero: "sum_list (map Re ?arr) / real ?n = 0" by simp
  show ?thesis
    using run cellwise zero by (intro exI[of _ ?arr]) (simp add: len)
qed

text \<open>
  The theorem on the two-pixel image \<open>[1, 0]\<close>: the mean is \<open>1/2\<close>.
\<close>

theorem mean_center_zero_mean_witness:
  "length (storage \<lparr>size_x = 2, size_y = 1, storage = [1, 0 :: real]\<rparr>)
     = size_x \<lparr>size_x = 2, size_y = 1, storage = [1, 0 :: real]\<rparr>
       * size_y \<lparr>size_x = 2, size_y = 1, storage = [1, 0 :: real]\<rparr> \<and>
   0 < size_x \<lparr>size_x = 2, size_y = 1, storage = [1, 0 :: real]\<rparr>
       * size_y \<lparr>size_x = 2, size_y = 1, storage = [1, 0 :: real]\<rparr> \<and>
   mean_center \<lparr>size_x = 2, size_y = 1, storage = [1, 0]\<rparr>
     = Inr (\<lparr>size_x = 2, size_y = 1, storage = [1, 0]\<rparr>, [Complex (1 / 2) 0, Complex (- 1 / 2) 0])"
  using mean_center_zero_mean[of "\<lparr>size_x = 2, size_y = 1, storage = [1, 0 :: real]\<rparr>"]
  by (simp add: mean_center_def compute_mean_def cells_def load_def buf_get_def store_def
        upt_conv_Cons replicate_numeral_Cons)

section \<open>The two-dimensional transform\<close>

lemma length_kissfft_transform [simp]: "length (kissfft_transform n src) = n"
  by (simp add: kissfft_transform_def)

lemma fft_row_ok:
  assumes len: "length d = h * w" and y: "y < h"
  shows "\<exists>d'. fft_row w y d = Inr d' \<and> length d' = length d \<and>
           (\<forall>x < w. d' ! (y * w + x) = kissfft_transform w (row_of w d y) ! x) \<and>
           (\<forall>k. k div w \<noteq> y \<longrightarrow> d' ! k = d ! k)"
proof (cases "w = 0")
  case True
  then show ?thesis by (simp add: fft_row_def load_range_def)
next
  case False
  have "y * w + w = Suc y * w" by simp
  also have "\<dots> \<le> h * w" using y by (intro mult_le_mono1) simp
  finally have lr: "load_range d (y * w) w = Inr (row_of w d y)"
    by (simp add: load_range_def row_of_def len)
  let ?t = "kissfft_transform w (row_of w d y)"
  have "\<exists>d'. for_each (\<lambda>x d. store d (y * w + x) (?t ! x)) [0..<w] d = Inr d' \<and> length d' = length d \<and>
           (\<forall>x \<in> set [0..<w]. d' ! (y * w + x) = ?t ! x) \<and>
           (\<forall>k. k \<notin> (\<lambda>x. y * w + x) ` set [0..<w] \<longrightarrow> d' ! k = d ! k)"
    by (rule for_each_scatter) (auto simp: distinct_map inj_on_def len intro: cell_less[OF y])
  then obtain d' where d': "for_each (\<lambda>x d. store d (y * w + x) (?t ! x)) [0..<w] d = Inr d'"
      "length d' = length d" "\<forall>x \<in> set [0..<w]. d' ! (y * w + x) = ?t ! x"
      "\<forall>k. k \<notin> (\<lambda>x. y * w + x) ` set [0..<w] \<longrightarrow> d' ! k = d ! k"
    by blast
  have "d' ! k = d ! k" if "k div w \<noteq> y" for k
  proof -
    have "k \<notin> (\<lambda>x. y * w + x) ` set [0..<w]"
    proof
      assume "k \<in> (\<lambda>x. y * w + x) ` set [0..<w]"
      then obtain x where "x \<in> set [0..<w]" "k = y * w + x" by blast
      then have "k div w = y" by simp
      with that show False by simp
    qed
    then show ?thesis using d'(4) by blast
  qed
  then show ?thesis using d' by (simp add: fft_row_def lr Let_def)
qed

lemma row_of_cong:
  assumes "length d = h * w" "length d' = h * w" "y < h"
    and "\<And>x. x < w \<Longrightarrow> d' ! (y * w + x) = d ! (y * w + x)"
  shows "row_of w d' y = row_of w d y"
proof -
  have "y * w + w = Suc y * w" by simp
  also have "\<dots> \<le> h * w" using assms(3) by (intro mult_le_mono1) simp
  finally have le: "y * w + w \<le> h * w" .
  show ?thesis
    unfolding row_of_def
    by (rule nth_equalityI) (use le assms in \<open>simp_all add: add.commute\<close>)
qed

lemma fft_rows_ok:
  assumes len: "length dat = h * w" and n: "n \<le> h"
  shows "\<exists>d. for_each (fft_row w) [0..<n] dat = Inr d \<and> length d = h * w \<and>
           (\<forall>k < h * w. d ! k = (if k div w < n
                 then kissfft_transform w (row_of w dat (k div w)) ! (k mod w) else dat ! k))"
  using n
proof (induction n)
  case 0
  show ?case by (simp add: len)
next
  case (Suc n)
  then obtain d where d: "for_each (fft_row w) [0..<n] dat = Inr d" "length d = h * w"
      "\<forall>k < h * w. d ! k = (if k div w < n
                 then kissfft_transform w (row_of w dat (k div w)) ! (k mod w) else dat ! k)"
    by auto
  have nh: "n < h" using Suc.prems by simp
  obtain d' where d': "fft_row w n d = Inr d'" "length d' = length d"
      "\<forall>x < w. d' ! (n * w + x) = kissfft_transform w (row_of w d n) ! x"
      "\<forall>k. k div w \<noteq> n \<longrightarrow> d' ! k = d ! k"
    using fft_row_ok[OF d(2) nh] by blast
  have row: "row_of w d n = row_of w dat n"
  proof (rule row_of_cong[OF len d(2) nh])
    fix x assume "x < w"
    then show "d ! (n * w + x) = dat ! (n * w + x)"
      using d(3) cell_less[OF nh, of x w] by simp
  qed
  have "d' ! k = (if k div w < Suc n
                 then kissfft_transform w (row_of w dat (k div w)) ! (k mod w) else dat ! k)"
    if k: "k < h * w" for k
  proof (cases "k div w = n")
    case True
    have w: "0 < w" using k by (cases w) auto
    have "k = n * w + k mod w" using True by (metis div_mult_mod_eq)
    moreover have "k mod w < w" using w by simp
    ultimately have "d' ! k = kissfft_transform w (row_of w d n) ! (k mod w)"
      using d'(3) by metis
    then show ?thesis using True by (simp add: row)
  next
    case False
    then have "d' ! k = d ! k" using d'(4) by blast
    then show ?thesis using False d(3) k by auto
  qed
  then show ?case using d d' by (simp add: for_each_append)
qed

lemma fft_col_ok:
  assumes len: "length d = h * w" and x: "x < w"
  shows "\<exists>d'. fft_col w h x d = Inr d' \<and> length d' = length d \<and>
           (\<forall>y < h. d' ! (y * w + x) = kissfft_transform h (col_of w h d x) ! y) \<and>
           (\<forall>k. k mod w \<noteq> x \<longrightarrow> d' ! k = d ! k)"
proof -
  have gather: "for_each (\<lambda>y ySrc. case load d (y * w + x) of Inl e \<Rightarrow> Inl e
                              | Inr v \<Rightarrow> store ySrc y v) [0..<h] (replicate h 0)
      = Inr (col_of w h d x)"
    using for_each_copy[of h "replicate h 0" "\<lambda>y. y * w + x" d "\<lambda>v. v"] cell_less[OF _ x, of _ h]
    by (simp add: len col_of_def)
  let ?t = "kissfft_transform h (col_of w h d x)"
  have "\<exists>d'. for_each (\<lambda>y d. store d (y * w + x) (?t ! y)) [0..<h] d = Inr d' \<and> length d' = length d \<and>
           (\<forall>y \<in> set [0..<h]. d' ! (y * w + x) = ?t ! y) \<and>
           (\<forall>k. k \<notin> (\<lambda>y. y * w + x) ` set [0..<h] \<longrightarrow> d' ! k = d ! k)"
  proof (rule for_each_scatter)
    have "inj_on (\<lambda>y. y * w + x) (set [0..<h])"
      using x by (auto simp: inj_on_def)
    then show "distinct (map (\<lambda>y. y * w + x) [0..<h])"
      by (simp add: distinct_map)
    show "y * w + x < length d" if "y \<in> set [0..<h]" for y
      using that cell_less[OF _ x, of y h] by (simp add: len)
  qed
  then obtain d' where d': "for_each (\<lambda>y d. store d (y * w + x) (?t ! y)) [0..<h] d = Inr d'"
      "length d' = length d" "\<forall>y \<in> set [0..<h]. d' ! (y * w + x) = ?t ! y"
      "\<forall>k. k \<notin> (\<lambda>y. y * w + x) ` set [0..<h] \<longrightarrow> d' ! k = d ! k"
    by blast
  have "d' ! k = d ! k" if "k mod w \<noteq> x" for k
  proof -
    have "k \<notin> (\<lambda>y. y * w + x) ` set [0..<h]"
    proof
      assume "k \<in> (\<lambda>y. y * w + x) ` set [0..<h]"
      then obtain y where "k = y * w + x" by blast
      then have "k mod w = x" using x by simp
      with that show False by simp
    qed
    then show ?thesis using d'(4) by blast
  qed
  then show ?thesis using d' by (simp add: fft_col_def gather Let_def)
qed

lemma col_of_cong:
  assumes "\<And>y. y < h \<Longrightarrow> d' ! (y * w + x) = d ! (y * w + x)"
  shows "col_of w h d' x = col_of w h d x"
  unfolding col_of_def using assms by simp

lemma fft_cols_ok:
  assumes len: "length dat = h * w" and n: "n \<le> w"
  shows "\<exists>d. for_each (fft_col w h) [0..<n] dat = Inr d \<and> length d = h * w \<and>
           (\<forall>k < h * w. d ! k = (if k mod w < n
                 then kissfft_transform h (col_of w h dat (k mod w)) ! (k div w) else dat ! k))"
  using n
proof (induction n)
  case 0
  show ?case by (simp add: len)
next
  case (Suc n)
  then obtain d where d: "for_each (fft_col w h) [0..<n] dat = Inr d" "length d = h * w"
      "\<forall>k < h * w. d ! k = (if k mod w < n
                 then kissfft_transform h (col_of w h dat (k mod w)) ! (k div w) else dat ! k)"
    by auto
  have nw: "n < w" using Suc.prems by simp
  obtain d' where d': "fft_col w h n d = Inr d'" "length d' = length d"
      "\<forall>y < h. d' ! (y * w + n) = kissfft_transform h (col_of w h d n) ! y"
      "\<forall>k. k mod w \<noteq> n \<longrightarrow> d' ! k = d ! k"
    using fft_col_ok[OF d(2) nw] by blast
  have col: "col_of w h d n = col_of w h dat n"
  proof (rule col_of_cong)
    fix y assume "y < h"
    then show "d ! (y * w + n) = dat ! (y * w + n)"
      using d(3) cell_less[OF _ nw, of y h] nw by simp
  qed
  have "d' ! k = (if k mod w < Suc n
                 then kissfft_transform h (col_of w h dat (k mod w)) ! (k div w) else dat ! k)"
    if k: "k < h * w" for k
  proof (cases "k mod w = n")
    case True
    have "k = k div w * w + n" using True by (metis div_mult_mod_eq)
    moreover have "k div w < h" using k nw by (simp add: less_mult_imp_div_less)
    ultimately have "d' ! k = kissfft_transform h (col_of w h d n) ! (k div w)"
      using d'(3) by metis
    then show ?thesis using True by (simp add: col)
  next
    case False
    then have "d' ! k = d ! k" using d'(4) by blast
    then show ?thesis using False d(3) k by auto
  qed
  then show ?case using d d' by (simp add: for_each_append)
qed

lemma row_of_nth:
  assumes "length d = h * w" "y < h" "x < w"
  shows "row_of w d y ! x = d ! (y * w + x)"
proof -
  have "y * w \<le> y * w + x" by simp
  also have "\<dots> < h * w" by (rule cell_less[OF assms(2,3)])
  finally have "y * w \<le> length d" using assms(1) by simp
  then show ?thesis using assms(3) by (simp add: row_of_def)
qed

lemma kissfft_transform_nth:
  "k < n \<Longrightarrow> kissfft_transform n src ! k = (\<Sum>j\<leftarrow>[0..<n]. src ! j * twiddle n (j * k))"
  by (simp add: kissfft_transform_def)

lemma twiddle_mult:
  "twiddle w (x * c) * twiddle h (y * l)
     = cis (- (2 * pi * (real (c * x) / real w + real (l * y) / real h)))"
  by (simp add: twiddle_def cis_mult algebra_simps)

lemma compute_fft_2d_is_dft_2d:
  assumes len: "length dat = width * height"
  shows "compute_fft_2d dat width height = Inr (dft_2d width height dat)"
proof -
  let ?w = width and ?h = height
  have len': "length dat = ?h * ?w" using len by (simp add: mult.commute)
  obtain r where r: "for_each (fft_row ?w) [0..<?h] dat = Inr r" "length r = ?h * ?w"
      "\<forall>k < ?h * ?w. r ! k = (if k div ?w < ?h
                 then kissfft_transform ?w (row_of ?w dat (k div ?w)) ! (k mod ?w) else dat ! k)"
    using fft_rows_ok[OF len' order_refl] by blast
  obtain c where c: "for_each (fft_col ?w ?h) [0..<?w] r = Inr c" "length c = ?h * ?w"
      "\<forall>k < ?h * ?w. c ! k = (if k mod ?w < ?w
                 then kissfft_transform ?h (col_of ?w ?h r (k mod ?w)) ! (k div ?w) else r ! k)"
    using fft_cols_ok[OF r(2) order_refl] by blast
  have "c = dft_2d ?w ?h dat"
  proof (rule nth_equalityI)
    show "length c = length (dft_2d ?w ?h dat)"
      by (simp add: c(2) dft_2d_def mult.commute)
  next
    fix k assume "k < length c"
    then have k: "k < ?h * ?w" by (simp add: c(2))
    then have w: "0 < ?w" by (cases ?w) auto
    have kw: "k mod ?w < ?w" using w by simp
    have kh: "k div ?w < ?h" using k w by (simp add: less_mult_imp_div_less)
    have rv: "r ! (y * ?w + k mod ?w)
        = (\<Sum>x\<leftarrow>[0..<?w]. dat ! (y * ?w + x) * twiddle ?w (x * (k mod ?w)))" if y: "y < ?h" for y
    proof -
      have "y * ?w + ?w = Suc y * ?w" by simp
      also have "\<dots> \<le> ?h * ?w" using y by (intro mult_le_mono1) simp
      finally have le: "y * ?w + ?w \<le> ?h * ?w" .
      have "r ! (y * ?w + k mod ?w) = kissfft_transform ?w (row_of ?w dat y) ! (k mod ?w)"
        using r(3) cell_less[OF y kw] y kw by simp
      also have "\<dots> = (\<Sum>x\<leftarrow>[0..<?w]. row_of ?w dat y ! x * twiddle ?w (x * (k mod ?w)))"
        by (rule kissfft_transform_nth[OF kw])
      also have "\<dots> = (\<Sum>x\<leftarrow>[0..<?w]. dat ! (y * ?w + x) * twiddle ?w (x * (k mod ?w)))"
        by (rule arg_cong[where f = sum_list], rule map_cong)
          (simp_all add: row_of_nth[OF len' y])
      finally show ?thesis .
    qed
    have "c ! k = kissfft_transform ?h (col_of ?w ?h r (k mod ?w)) ! (k div ?w)"
      using c(3) k kw by simp
    also have "\<dots> = (\<Sum>y\<leftarrow>[0..<?h]. col_of ?w ?h r (k mod ?w) ! y * twiddle ?h (y * (k div ?w)))"
      by (rule kissfft_transform_nth[OF kh])
    also have "\<dots> = (\<Sum>y\<leftarrow>[0..<?h]. (\<Sum>x\<leftarrow>[0..<?w]. dat ! (y * ?w + x) * twiddle ?w (x * (k mod ?w)))
                          * twiddle ?h (y * (k div ?w)))"
      by (rule arg_cong[where f = sum_list], rule map_cong)
        (simp_all add: col_of_def rv)
    also have "\<dots> = (\<Sum>y\<leftarrow>[0..<?h]. \<Sum>x\<leftarrow>[0..<?w]. dat ! (y * ?w + x) *
            cis (- (2 * pi * (real ((k mod ?w) * x) / real ?w + real ((k div ?w) * y) / real ?h))))"
      by (simp add: sum_list_mult_const[symmetric] mult.assoc twiddle_mult o_def)
    finally show "c ! k = dft_2d ?w ?h dat ! k"
      using k by (simp add: dft_2d_def mult.commute)
  qed
  then show ?thesis by (simp add: compute_fft_2d_def r(1) c(1))
qed

text \<open>
  C6. For positive \<open>width\<close> and \<open>height\<close> and an array of \<open>width * height\<close> samples, the
  first loop of \<^verbatim>\<open>compute_fft_2d\<close> ends with every row replaced by its transform of length
  \<open>width\<close>; the second loop, which starts from that array, replaces every column by its
  transform of length \<open>height\<close>; and the result is the two-dimensional discrete Fourier
  transform of the input. The one-dimensional transform is \<open>kissfft_transform\<close>.
\<close>

theorem compute_fft_2d_row_column:
  assumes w: "0 < width" and h: "0 < height" and len: "length dat = width * height"
  shows "for_each (fft_row width) [0..<height] dat = Inr (rows_transformed width height dat) \<and>
         compute_fft_2d dat width height
           = Inr (cols_transformed width height (rows_transformed width height dat)) \<and>
         compute_fft_2d dat width height = Inr (dft_2d width height dat)"
proof -
  have len': "length dat = height * width" using len by (simp add: mult.commute)
  obtain r where r: "for_each (fft_row width) [0..<height] dat = Inr r" "length r = height * width"
      "\<forall>k < height * width. r ! k = (if k div width < height
                 then kissfft_transform width (row_of width dat (k div width)) ! (k mod width)
                 else dat ! k)"
    using fft_rows_ok[OF len' order_refl] by blast
  have rows: "r = rows_transformed width height dat"
  proof (rule nth_equalityI)
    show "length r = length (rows_transformed width height dat)"
      by (simp add: r(2) rows_transformed_def)
    fix k assume "k < length r"
    then have k: "k < height * width" by (simp add: r(2))
    then have "k div width < height" using w by (simp add: less_mult_imp_div_less)
    then show "r ! k = rows_transformed width height dat ! k"
      using r(3) k by (simp add: rows_transformed_def)
  qed
  obtain c where c: "for_each (fft_col width height) [0..<width] r = Inr c"
      "length c = height * width"
      "\<forall>k < height * width. c ! k = (if k mod width < width
                 then kissfft_transform height (col_of width height r (k mod width)) ! (k div width)
                 else r ! k)"
    using fft_cols_ok[OF r(2) order_refl] by blast
  have cols: "c = cols_transformed width height r"
  proof (rule nth_equalityI)
    show "length c = length (cols_transformed width height r)"
      by (simp add: c(2) cols_transformed_def)
    fix k assume "k < length c"
    then have k: "k < height * width" by (simp add: c(2))
    then show "c ! k = cols_transformed width height r ! k"
      using c(3) w by (simp add: cols_transformed_def)
  qed
  have run: "compute_fft_2d dat width height = Inr c"
    by (simp add: compute_fft_2d_def r(1) c(1))
  show ?thesis
    using r(1) run compute_fft_2d_is_dft_2d[OF len] by (simp add: rows cols)
qed

lemma twiddle_0 [simp]: "twiddle n 0 = 1"
  by (simp add: twiddle_def)

lemma twiddle_2_1 [simp]: "twiddle 2 (Suc 0) = - 1"
proof -
  have "cis (- pi) = cnj (cis pi)" by (simp only: cis_cnj)
  then show ?thesis by (simp add: twiddle_def)
qed

text \<open>
  The theorem on the 2 by 2 unit impulse: the rows become \<open>[1, 1]\<close> and \<open>[0, 0]\<close>, the
  result is constant 1.
\<close>

theorem compute_fft_2d_row_column_witness:
  "(0::nat) < 2 \<and> length [1, 0, 0, 0 :: complex] = 2 * 2 \<and>
   for_each (fft_row 2) [0..<2] [1, 0, 0, 0] = Inr [1, 1, 0, 0] \<and>
   compute_fft_2d [1, 0, 0, 0] 2 2 = Inr [1, 1, 1, 1] \<and>
   dft_2d 2 2 [1, 0, 0, 0] = [1, 1, 1, 1]"
proof -
  have rows: "for_each (fft_row 2) [0..<2] [1, 0, 0, 0] = Inr [1, 1, 0, 0]"
    by (simp add: fft_row_def load_range_def store_def kissfft_transform_def upt_conv_Cons)
  have run: "compute_fft_2d [1, 0, 0, 0] 2 2 = Inr [1, 1, 1, 1]"
    unfolding compute_fft_2d_def rows
    by (simp add: fft_col_def load_def store_def
          kissfft_transform_def upt_conv_Cons replicate_numeral_Cons)
  have "for_each (fft_row 2) [0..<2] [1, 0, 0, 0] = Inr (rows_transformed 2 2 [1, 0, 0, 0]) \<and>
        compute_fft_2d [1, 0, 0, 0] 2 2
          = Inr (cols_transformed 2 2 (rows_transformed 2 2 [1, 0, 0, 0])) \<and>
        compute_fft_2d [1, 0, 0, 0] 2 2 = Inr (dft_2d 2 2 [1, 0, 0, 0])"
    by (rule compute_fft_2d_row_column) simp_all
  then have "compute_fft_2d [1, 0, 0, 0] 2 2 = Inr (dft_2d 2 2 [1, 0, 0, 0])"
    by blast
  with run have "dft_2d 2 2 [1, 0, 0, 0] = [1, 1, 1, 1]" by simp
  with rows run show ?thesis by simp
qed

section \<open>Normalisation and rescaling\<close>

lemma fold_min_max:
  "fold (\<lambda>a (mn, mx). (min mn (cmod a), max mx (cmod a))) xs (a, b)
     = (fold min (map cmod xs) a, fold max (map cmod xs) b)"
  by (induction xs arbitrary: a b) (simp_all add: min.commute max.commute)

lemma spectrum_min_max_ok:
  assumes len: "length arr = n" and pos: "0 < n"
  shows "spectrum_min_max arr n = Inr (Min (set (map cmod arr)), Max (set (map cmod arr)))"
proof -
  let ?g = "\<lambda>a (mn, mx). (min mn (cmod a), max mx (cmod a))"
  obtain a0 rest where arr: "arr = a0 # rest"
    using len pos by (cases arr) auto
  have "for_each (\<lambda>i (mn, mx). case load arr i of Inl e \<Rightarrow> Inl e
                   | Inr a \<Rightarrow> (let value = cmod a in Inr (min mn value, max mx value)))
          [0..<n] (cmod a0, cmod a0)
      = for_each (\<lambda>k s. case load arr k of Inl e \<Rightarrow> Inl e | Inr v \<Rightarrow> Inr (?g v s))
          [0..<n] (cmod a0, cmod a0)"
    by (rule for_each_cong) (simp add: Let_def split: sum.splits prod.splits)
  also have "\<dots> = Inr (fold ?g (take n arr) (cmod a0, cmod a0))"
    by (rule for_each_read) (simp add: len)
  also have "fold ?g (take n arr) (cmod a0, cmod a0)
      = (fold min (map cmod arr) (cmod a0), fold max (map cmod arr) (cmod a0))"
    by (simp add: len fold_min_max)
  also have "fold min (map cmod arr) (cmod a0) = Min (set (cmod a0 # map cmod arr))"
    by (simp only: Min.set_eq_fold)
  also have "fold max (map cmod arr) (cmod a0) = Max (set (cmod a0 # map cmod arr))"
    by (simp only: Max.set_eq_fold)
  finally show ?thesis
    by (simp add: spectrum_min_max_def load_def arr)
qed

lemma normalize_image_ok:
  assumes len: "length (storage img) = size_y img * size_x img"
    and arr: "length arr = size_y img * size_x img"
  shows "normalize_image arr mn mx img =
     Inr (img\<lparr>storage := map (\<lambda>v. flt_div (Fin (sqrt (Re v * Re v + Im v * Im v) - mn))
                                           (Fin (mx - mn))) arr\<rparr>)"
proof -
  let ?n = "size_y img * size_x img"
  let ?g = "\<lambda>v. flt_div (Fin (sqrt (Re v * Re v + Im v * Im v) - mn)) (Fin (mx - mn))"
  let ?emb = "\<lambda>m. img\<lparr>storage := m\<rparr>"
  have "normalize_image arr mn mx img =
      (case for_each (\<lambda>k m. case load arr k of Inl e \<Rightarrow> Inl e | Inr v \<Rightarrow> store m k (?g v))
              [0..<?n] (storage img) of
         Inl e \<Rightarrow> Inl e | Inr m' \<Rightarrow> Inr (?emb m'))"
    unfolding normalize_image_def
    by (rule for_each_buf) (simp add: buf_set_def split: sum.splits)
  also have "for_each (\<lambda>k m. case load arr k of Inl e \<Rightarrow> Inl e | Inr v \<Rightarrow> store m k (?g v))
              [0..<?n] (storage img)
      = Inr (map (\<lambda>k. ?g (arr ! k)) [0..<?n] @ drop ?n (storage img))"
    by (rule for_each_copy[where ix = "\<lambda>k. k"]) (simp_all add: len arr)
  also have "map (\<lambda>k. ?g (arr ! k)) [0..<?n] = map ?g arr"
    by (rule nth_equalityI) (simp_all add: arr)
  finally show ?thesis by (simp add: len)
qed

lemma shift_fft_image_ok:
  assumes len: "length (storage dat) = size_y dat * size_x dat"
    and pos: "0 < size_y dat * size_x dat"
  shows "shift_fft_image dat =
    (let d00 = storage dat ! 0;
         mn = fold (\<lambda>v mn. if flt_less v mn then v else mn) (storage dat) d00;
         shifted = map (\<lambda>v. flt_sub v mn) (storage dat);
         mx = fold (\<lambda>v mx. if flt_less mx v then v else mx) shifted d00
     in Inr (dat\<lparr>storage := map (\<lambda>v. flt_mul v (flt_div (Fin 255) mx)) shifted\<rparr>))"
proof -
  let ?w = "size_x dat" and ?h = "size_y dat"
  let ?d00 = "storage dat ! 0"
  let ?mn = "fold (\<lambda>v mn. if flt_less v mn then v else mn) (storage dat) ?d00"
  let ?shifted = "map (\<lambda>v. flt_sub v ?mn) (storage dat)"
  let ?mx = "fold (\<lambda>v mx. if flt_less mx v then v else mx) ?shifted ?d00"
  have d00: "buf_get dat 0 0 = Inr ?d00"
    using pos by (simp add: buf_get_def load_def len)
  have p1: "apply_fn dat (\<lambda>(i, j) mn. case buf_get dat i j of Inl e \<Rightarrow> Inl e
                | Inr v \<Rightarrow> Inr (if flt_less v mn then v else mn)) ?d00 = Inr ?mn"
    unfolding apply_fn_def
    by (subst for_each_read_cells) (simp_all add: len)
  have p2: "apply_fn dat (\<lambda>(i, j) d. case buf_get d i j of Inl e \<Rightarrow> Inl e
                | Inr v \<Rightarrow> buf_set d i j (flt_sub v ?mn)) dat = Inr (dat\<lparr>storage := ?shifted\<rparr>)"
    unfolding apply_fn_def
    by (subst for_each_update_cells) (simp_all add: len)
  have p3: "apply_fn dat (\<lambda>(i, j) mx. case buf_get (dat\<lparr>storage := ?shifted\<rparr>) i j of Inl e \<Rightarrow> Inl e
                | Inr v \<Rightarrow> Inr (if flt_less mx v then v else mx)) ?d00 = Inr ?mx"
    unfolding apply_fn_def
    by (subst for_each_read_cells[where w = ?w]) (simp_all add: len)
  have p4: "apply_fn dat (\<lambda>(i, j) d. case buf_get d i j of Inl e \<Rightarrow> Inl e
                | Inr v \<Rightarrow> buf_set d i j (flt_mul v (flt_div (Fin 255) ?mx))) (dat\<lparr>storage := ?shifted\<rparr>)
            = Inr (dat\<lparr>storage := map (\<lambda>v. flt_mul v (flt_div (Fin 255) ?mx)) ?shifted\<rparr>)"
    unfolding apply_fn_def
    by (subst for_each_update_cells[where w = ?w]) (simp_all add: len)
  show ?thesis
    unfolding shift_fft_image_def Let_def
    by (simp only: d00 p1 p2 p3 p4 sum.case)
qed

lemma fold_flt_min:
  "fold (\<lambda>v mn. if flt_less v mn then v else mn) (map Fin xs) (Fin a) = Fin (fold min xs a)"
  by (induction xs arbitrary: a) (auto simp: min_def)

lemma fold_flt_max:
  "fold (\<lambda>v mx. if flt_less mx v then v else mx) (map Fin xs) (Fin a) = Fin (fold max xs a)"
  by (induction xs arbitrary: a) (auto simp: max_def)

lemma fold_min_Min: "fold min xs (a::real) = Min (insert a (set xs))"
  using Min.set_eq_fold[of a xs] by simp

lemma fold_max_Max: "fold max xs (a::real) = Max (insert a (set xs))"
  using Max.set_eq_fold[of a xs] by simp

lemma FLT_OVERFLOW_gt_255: "255 < FLT_OVERFLOW"
  by (simp add: FLT_OVERFLOW_def)

lemma flt_of_exact_Fin:
  "- FLT_OVERFLOW < r \<Longrightarrow> r < FLT_OVERFLOW \<Longrightarrow> flt_of_exact r = Fin r"
  by (simp add: flt_of_exact_def)

lemma flt_of_exact_nonneg:
  "0 \<le> r \<Longrightarrow> r < FLT_OVERFLOW \<Longrightarrow> flt_of_exact r = Fin r"
  using FLT_OVERFLOW_gt_255 by (intro flt_of_exact_Fin) simp_all

lemma shift_fft_image_finite:
  assumes st: "storage dat = map Fin vs"
    and len: "length vs = size_y dat * size_x dat"
    and pos: "0 < size_y dat * size_x dat"
    and spread: "Max (set vs) - Min (set vs) < FLT_OVERFLOW"
  shows "shift_fft_image dat =
     Inr (dat\<lparr>storage :=
            map (\<lambda>v. flt_mul (Fin (v - Min (set vs)))
                   (flt_div (Fin 255)
                      (Fin (Max (insert (vs ! 0) ((\<lambda>v. v - Min (set vs)) ` set vs))))))
              vs\<rparr>)"
proof -
  have ne: "vs \<noteq> []" using len pos by auto
  then have v0: "vs ! 0 \<in> set vs" by simp
  have d00: "map Fin vs ! 0 = Fin (vs ! 0)" using ne by simp
  have mn: "fold (\<lambda>v mn. if flt_less v mn then v else mn) (storage dat) (storage dat ! 0)
              = Fin (Min (set vs))"
    using v0 by (simp add: st d00 fold_flt_min fold_min_Min insert_absorb)
  have sub: "flt_sub (Fin v) (Fin (Min (set vs))) = Fin (v - Min (set vs))" if "v \<in> set vs" for v
  proof -
    have "Min (set vs) \<le> v" "v \<le> Max (set vs)" using that by simp_all
    then have "0 \<le> v - Min (set vs)" "v - Min (set vs) < FLT_OVERFLOW"
      using spread by linarith+
    then show ?thesis by (simp add: flt_of_exact_nonneg)
  qed
  have sh: "map (\<lambda>v. flt_sub v (Fin (Min (set vs)))) (storage dat)
              = map Fin (map (\<lambda>v. v - Min (set vs)) vs)"
  proof -
    have "map (\<lambda>v. flt_sub v (Fin (Min (set vs)))) (map Fin vs)
            = map (\<lambda>v. flt_sub (Fin v) (Fin (Min (set vs)))) vs"
      by (simp only: map_map o_def)
    also have "\<dots> = map (\<lambda>v. Fin (v - Min (set vs))) vs"
      by (rule map_cong[OF refl]) (rule sub)
    also have "\<dots> = map Fin (map (\<lambda>v. v - Min (set vs)) vs)"
      by (simp only: map_map o_def)
    finally show ?thesis by (simp only: st)
  qed
  have mx: "fold (\<lambda>v mx. if flt_less mx v then v else mx)
              (map Fin (map (\<lambda>v. v - Min (set vs)) vs)) (storage dat ! 0)
            = Fin (Max (insert (vs ! 0) ((\<lambda>v. v - Min (set vs)) ` set vs)))"
    unfolding st d00 fold_flt_max fold_max_Max by simp
  have fin: "map (\<lambda>v. flt_mul v c) (map Fin (map (\<lambda>v. v - Min (set vs)) vs))
               = map (\<lambda>v. flt_mul (Fin (v - Min (set vs))) c) vs" for c
    by simp
  have len': "length (storage dat) = size_y dat * size_x dat"
    by (simp add: st len)
  show ?thesis
    by (simp only: shift_fft_image_ok[OF len' pos] Let_def mn sh mx fin)
qed

text \<open>
  C10, as the code has it. The claim is stated for every buffer. A NaN among the samples
  stays a NaN, and a float operation that overflows puts an infinity or a NaN in the
  result, as the three buffers below show; neither is a non-negative sample.
  Amended claim: on a buffer of finite samples \<open>vs\<close> (with \<open>size.x * size.y > 0\<close> of them)
  whose spread \<open>max - min\<close> is below the overflow threshold of the float type,
  \<^verbatim>\<open>shift_fft_image\<close> moves no value: the sample at every index becomes
  \<open>(v - globalMin) * (255 / scaleMax)\<close>, computed in floating point, where \<open>globalMin\<close> is
  the least sample and \<open>scaleMax\<close> the greatest among the original sample at \<open>(0, 0)\<close> and
  all samples after the subtraction. When moreover the samples are not all equal and the
  factor \<open>255 / scaleMax\<close> is below the overflow threshold, \<open>scaleMax\<close> is positive, the
  results are the finite numbers \<open>(v - globalMin) * (255 / scaleMax)\<close>, none is negative
  and one is 0.
\<close>

theorem shift_fft_image_affine:
  assumes st: "storage dat = map Fin vs"
    and len: "length vs = size_y dat * size_x dat"
    and pos: "0 < size_y dat * size_x dat"
    and spread: "Max (set vs) - Min (set vs) < FLT_OVERFLOW"
  shows "let globalMin = Min (set vs);
             scaleMax = Max (insert (vs ! 0) ((\<lambda>v. v - globalMin) ` set vs)) in
         shift_fft_image dat =
           Inr (dat\<lparr>storage :=
                  map (\<lambda>v. flt_mul (Fin (v - globalMin)) (flt_div (Fin 255) (Fin scaleMax))) vs\<rparr>) \<and>
         ((\<exists>a \<in> set vs. \<exists>b \<in> set vs. a \<noteq> b) \<and> 255 / scaleMax < FLT_OVERFLOW \<longrightarrow>
            0 < scaleMax \<and>
            shift_fft_image dat =
              Inr (dat\<lparr>storage := map (\<lambda>v. Fin ((v - globalMin) * (255 / scaleMax))) vs\<rparr>) \<and>
            (\<forall>v \<in> set vs. 0 \<le> (v - globalMin) * (255 / scaleMax)) \<and>
            (\<exists>v \<in> set vs. (v - globalMin) * (255 / scaleMax) = 0))"
proof -
  define globalMin where "globalMin = Min (set vs)"
  define scaleMax where "scaleMax = Max (insert (vs ! 0) ((\<lambda>v. v - globalMin) ` set vs))"
  have ne: "set vs \<noteq> {}" using len pos by auto
  have fin: "finite (set vs)" by simp
  have min_in: "globalMin \<in> set vs"
    unfolding globalMin_def using ne by (intro Min_in) simp_all
  have min_le: "globalMin \<le> v" if "v \<in> set vs" for v
    unfolding globalMin_def using that by simp
  have max_ge: "v - globalMin \<le> scaleMax" if "v \<in> set vs" for v
    unfolding scaleMax_def using that by (intro Max_ge) simp_all
  have first: "shift_fft_image dat =
      Inr (dat\<lparr>storage :=
             map (\<lambda>v. flt_mul (Fin (v - globalMin)) (flt_div (Fin 255) (Fin scaleMax))) vs\<rparr>)"
    unfolding globalMin_def scaleMax_def by (rule shift_fft_image_finite[OF st len pos spread])
  have second: "0 < scaleMax \<and>
        shift_fft_image dat =
          Inr (dat\<lparr>storage := map (\<lambda>v. Fin ((v - globalMin) * (255 / scaleMax))) vs\<rparr>) \<and>
        (\<forall>v \<in> set vs. 0 \<le> (v - globalMin) * (255 / scaleMax)) \<and>
        (\<exists>v \<in> set vs. (v - globalMin) * (255 / scaleMax) = 0)"
    if noteq: "\<exists>a \<in> set vs. \<exists>b \<in> set vs. a \<noteq> b" and factor: "255 / scaleMax < FLT_OVERFLOW"
  proof -
    from noteq obtain a b where ab: "a \<in> set vs" "b \<in> set vs" "a \<noteq> b" by blast
    then have "globalMin < a \<or> globalMin < b"
      using min_le[of a] min_le[of b] by linarith
    then obtain c where c: "c \<in> set vs" "globalMin < c" using ab by blast
    then have sm: "0 < scaleMax" using max_ge[of c] by linarith
    have quot: "flt_div (Fin 255) (Fin scaleMax) = Fin (255 / scaleMax)"
      using sm factor by (simp add: flt_of_exact_nonneg)
    have prod: "flt_mul (Fin (v - globalMin)) (Fin (255 / scaleMax))
                  = Fin ((v - globalMin) * (255 / scaleMax))" if v: "v \<in> set vs" for v
    proof -
      have lo: "0 \<le> (v - globalMin) * (255 / scaleMax)"
        using sm min_le[OF v] by (intro mult_nonneg_nonneg) simp_all
      have "(v - globalMin) * (255 / scaleMax) \<le> scaleMax * (255 / scaleMax)"
        using sm max_ge[OF v] by (intro mult_right_mono) simp_all
      also have "\<dots> = 255" using sm by simp
      finally have "(v - globalMin) * (255 / scaleMax) < FLT_OVERFLOW"
        using FLT_OVERFLOW_gt_255 by linarith
      with lo show ?thesis by (simp add: flt_of_exact_nonneg)
    qed
    have "map (\<lambda>v. flt_mul (Fin (v - globalMin)) (flt_div (Fin 255) (Fin scaleMax))) vs
            = map (\<lambda>v. Fin ((v - globalMin) * (255 / scaleMax))) vs"
      unfolding quot by (rule map_cong[OF refl]) (rule prod)
    then have "shift_fft_image dat =
          Inr (dat\<lparr>storage := map (\<lambda>v. Fin ((v - globalMin) * (255 / scaleMax))) vs\<rparr>)"
      by (simp only: first)
    moreover have "\<forall>v \<in> set vs. 0 \<le> (v - globalMin) * (255 / scaleMax)"
      using sm min_le by (auto intro!: mult_nonneg_nonneg)
    moreover have "\<exists>v \<in> set vs. (v - globalMin) * (255 / scaleMax) = 0"
      using min_in by (intro bexI[of _ globalMin]) simp_all
    ultimately show ?thesis using sm by blast
  qed
  show ?thesis
    unfolding Let_def globalMin_def[symmetric] scaleMax_def[symmetric]
    using first second by blast
qed

text \<open>
  The theorem on the buffer \<open>[3, 1]\<close>: the minimum is 1, the scale maximum is the
  original first sample 3 (not the shifted maximum 2), and the result is \<open>[170, 0]\<close>.
\<close>

theorem shift_fft_image_affine_witness:
  "storage \<lparr>size_x = 2, size_y = 1, storage = [Fin 3, Fin 1]\<rparr> = map Fin [3, 1] \<and>
   length [3, 1 :: real]
     = size_y \<lparr>size_x = 2, size_y = 1, storage = [Fin 3, Fin 1]\<rparr>
       * size_x \<lparr>size_x = 2, size_y = 1, storage = [Fin 3, Fin 1]\<rparr> \<and>
   0 < size_y \<lparr>size_x = 2, size_y = 1, storage = [Fin 3, Fin 1]\<rparr>
       * size_x \<lparr>size_x = 2, size_y = 1, storage = [Fin 3, Fin 1]\<rparr> \<and>
   Max (set [3, 1 :: real]) - Min (set [3, 1 :: real]) < FLT_OVERFLOW \<and>
   (\<exists>a \<in> set [3, 1 :: real]. \<exists>b \<in> set [3, 1 :: real]. a \<noteq> b) \<and>
   Min (set [3, 1 :: real]) = 1 \<and>
   Max (insert ([3, 1 :: real] ! 0) ((\<lambda>v. v - 1) ` set [3, 1])) = 3 \<and>
   (255 :: real) / 3 < FLT_OVERFLOW \<and>
   shift_fft_image \<lparr>size_x = 2, size_y = 1, storage = [Fin 3, Fin 1]\<rparr>
     = Inr \<lparr>size_x = 2, size_y = 1, storage = [Fin 170, Fin 0]\<rparr>"
proof -
  let ?dat = "\<lparr>size_x = 2, size_y = 1, storage = [Fin 3, Fin 1]\<rparr>"
  have mins: "Min (set [3, 1 :: real]) = 1"
    and maxs: "Max (insert ([3, 1 :: real] ! 0) ((\<lambda>v. v - 1) ` set [3, 1])) = 3"
    by simp_all
  have spread: "Max (set [3, 1 :: real]) - Min (set [3, 1 :: real]) < FLT_OVERFLOW"
    by (simp add: FLT_OVERFLOW_def)
  have factor: "(255 :: real) / 3 < FLT_OVERFLOW"
    by (simp add: FLT_OVERFLOW_def)
  have ne: "\<exists>a \<in> set [3, 1 :: real]. \<exists>b \<in> set [3, 1 :: real]. a \<noteq> b"
    by (intro bexI[of _ 3] bexI[of _ 1]) simp_all
  have "let globalMin = Min (set [3, 1 :: real]);
            scaleMax = Max (insert ([3, 1] ! 0) ((\<lambda>v. v - globalMin) ` set [3, 1])) in
        shift_fft_image ?dat =
          Inr (?dat\<lparr>storage :=
                 map (\<lambda>v. flt_mul (Fin (v - globalMin)) (flt_div (Fin 255) (Fin scaleMax))) [3, 1]\<rparr>) \<and>
        ((\<exists>a \<in> set [3, 1 :: real]. \<exists>b \<in> set [3, 1]. a \<noteq> b) \<and> 255 / scaleMax < FLT_OVERFLOW \<longrightarrow>
           0 < scaleMax \<and>
           shift_fft_image ?dat =
             Inr (?dat\<lparr>storage := map (\<lambda>v. Fin ((v - globalMin) * (255 / scaleMax))) [3, 1]\<rparr>) \<and>
           (\<forall>v \<in> set [3, 1]. 0 \<le> (v - globalMin) * (255 / scaleMax)) \<and>
           (\<exists>v \<in> set [3, 1]. (v - globalMin) * (255 / scaleMax) = 0))"
    by (rule shift_fft_image_affine) (simp_all add: FLT_OVERFLOW_def)
  with ne factor have "shift_fft_image ?dat =
          Inr (?dat\<lparr>storage := map (\<lambda>v. Fin ((v - 1) * (255 / 3))) [3, 1]\<rparr>)"
    unfolding Let_def mins maxs by blast
  then have res: "shift_fft_image ?dat = Inr \<lparr>size_x = 2, size_y = 1, storage = [Fin 170, Fin 0]\<rparr>"
    by simp
  show ?thesis
  proof (intro conjI)
    show "\<exists>a \<in> set [3, 1 :: real]. \<exists>b \<in> set [3, 1 :: real]. a \<noteq> b" by (rule ne)
    show "shift_fft_image ?dat = Inr \<lparr>size_x = 2, size_y = 1, storage = [Fin 170, Fin 0]\<rparr>"
      by (rule res)
    show "Max (set [3, 1 :: real]) - Min (set [3, 1 :: real]) < FLT_OVERFLOW" by (rule spread)
    show "(255 :: real) / 3 < FLT_OVERFLOW" by (rule factor)
  qed simp_all
qed

text \<open>
  Three buffers outside the amended claim. A NaN sample: \<open>[1, NaN, 0]\<close> becomes
  \<open>[255, NaN, 0]\<close>. An overflowing factor: for \<open>[0, 2\<^sup>-\<^sup>1\<^sup>2\<^sup>5]\<close> the quotient \<open>255 / 2\<^sup>-\<^sup>1\<^sup>2\<^sup>5\<close>
  is infinite, and the result is \<open>[NaN, +\<infinity>]\<close>. An overflowing subtraction: for
  \<open>[2\<^sup>1\<^sup>2\<^sup>7, - 2\<^sup>1\<^sup>2\<^sup>7]\<close> the difference \<open>2\<^sup>1\<^sup>2\<^sup>8\<close> is infinite, and the result is \<open>[NaN, 0]\<close>.
\<close>

theorem shift_fft_image_not_finite:
  "shift_fft_image \<lparr>size_x = 3, size_y = 1, storage = [Fin 1, NaN, Fin 0]\<rparr>
     = Inr \<lparr>size_x = 3, size_y = 1, storage = [Fin 255, NaN, Fin 0]\<rparr> \<and>
   shift_fft_image \<lparr>size_x = 2, size_y = 1, storage = [Fin 0, Fin (1 / 2 ^ 125)]\<rparr>
     = Inr \<lparr>size_x = 2, size_y = 1, storage = [NaN, PInf]\<rparr> \<and>
   shift_fft_image \<lparr>size_x = 2, size_y = 1, storage = [Fin (2 ^ 127), Fin (- (2 ^ 127))]\<rparr>
     = Inr \<lparr>size_x = 2, size_y = 1, storage = [NaN, Fin 0]\<rparr>"
  by (simp add: eval_defs)

lemma fold_NaN_min: "fold (\<lambda>v mn. if flt_less v mn then v else mn) (replicate n NaN) NaN = NaN"
  by (induction n) simp_all

lemma fold_NaN_max: "fold (\<lambda>v mx. if flt_less mx v then v else mx) (replicate n NaN) NaN = NaN"
  by (induction n) simp_all

lemma shift_fft_image_NaN:
  assumes st: "storage dat = replicate (size_y dat * size_x dat) NaN"
    and pos: "0 < size_y dat * size_x dat"
  shows "shift_fft_image dat = Inr dat"
proof -
  have "shift_fft_image dat = Inr (dat\<lparr>storage := replicate (size_y dat * size_x dat) NaN\<rparr>)"
    using shift_fft_image_ok[of dat] pos
    by (simp add: st Let_def fold_NaN_min fold_NaN_max)
  then show ?thesis by (simp add: st[symmetric])
qed

section \<open>The whole pipeline\<close>

text \<open>
  The coefficient at index 0 of the transform is the sum of the signal, and the sum of a
  mean-centred signal is 0.
\<close>

lemma sum_list_grid:
  fixes f :: "nat \<Rightarrow> complex"
  shows "(\<Sum>y\<leftarrow>[0..<h]. \<Sum>x\<leftarrow>[0..<w]. f (y * w + x)) = (\<Sum>k\<leftarrow>[0..<h * w]. f k)"
proof (induction h)
  case 0
  show ?case by simp
next
  case (Suc h)
  have split: "[0..<h * w + w] = [0..<h * w] @ [h * w..<h * w + w]"
    by (rule upt_add_eq_append) simp
  have "map (\<lambda>x. f (h * w + x)) [0..<w] = map f (map (\<lambda>x. x + h * w) [0..<w])"
    by (simp add: add.commute)
  also have "map (\<lambda>x. x + h * w) [0..<w] = [h * w..<h * w + w]"
    by (simp add: map_add_upt add.commute)
  finally have row: "(\<Sum>x\<leftarrow>[0..<w]. f (h * w + x)) = (\<Sum>k\<leftarrow>[h * w..<h * w + w]. f k)"
    by simp
  have "(\<Sum>k\<leftarrow>[0..<Suc h * w]. f k)
          = (\<Sum>k\<leftarrow>[0..<h * w]. f k) + (\<Sum>k\<leftarrow>[h * w..<h * w + w]. f k)"
    using split by (simp add: add.commute)
  then show ?case using Suc row by simp
qed

lemma dft_2d_origin:
  assumes "length a = w * h" and "0 < w * h"
  shows "dft_2d w h a ! 0 = sum_list a"
proof -
  have "dft_2d w h a ! 0 = (\<Sum>y\<leftarrow>[0..<h]. \<Sum>x\<leftarrow>[0..<w]. a ! (y * w + x))"
    using assms(2) by (simp add: dft_2d_def)
  also have "\<dots> = (\<Sum>k\<leftarrow>[0..<h * w]. a ! k)"
    by (rule sum_list_grid)
  also have "\<dots> = sum_list (map ((!) a) [0..<length a])"
    using assms(1) by (simp add: mult.commute)
  also have "\<dots> = sum_list a"
    by (simp only: map_nth)
  finally show ?thesis .
qed

lemma sum_list_Complex:
  "sum_list (map (\<lambda>v. Complex (f v) 0) xs) = Complex (sum_list (map f xs)) 0"
  by (induction xs) (simp_all add: complex_eq_iff)

lemma on_drop_spectrum_ok:
  assumes "valid_decoded dec"
  shows "\<exists>img arr. on_drop_spectrum dec = Inr (img, arr) \<and>
           size_x img = img_width dec \<and> size_y img = img_height dec \<and>
           length (storage img) = img_height dec * img_width dec \<and>
           length arr = img_height dec * img_width dec \<and> arr ! 0 = 0"
proof -
  let ?w = "img_width dec" and ?h = "img_height dec"
  have n3: "3 \<le> nBytes dec" and len: "nBytes dec * (?h * ?w) \<le> length (bytes dec)"
    and pos: "0 < ?w * ?h"
    using assms by (auto simp: valid_decoded_def)
  obtain img where img: "png_to_luminance dec = Inr img" "size_x img = ?w" "size_y img = ?h"
      "length (storage img) = ?h * ?w"
    using png_to_luminance_ok[OF n3 len] by simp
  have len2: "length (storage img) = size_x img * size_y img"
    by (simp add: img mult.commute)
  have pos2: "0 < size_x img * size_y img" using pos by (simp add: img)
  define arr0 where
    "arr0 = map (\<lambda>v. Complex (v - sum_list (storage img) / real (size_x img * size_y img)) 0)
              (storage img)"
  have arr0: "mean_center img = Inr (img, arr0)"
    unfolding arr0_def by (rule mean_center_ok[OF len2 pos2])
  have len0: "length arr0 = ?w * ?h" by (simp add: arr0_def img mult.commute)
  have fft: "compute_fft_2d arr0 ?w ?h = Inr (dft_2d ?w ?h arr0)"
    by (rule compute_fft_2d_is_dft_2d[OF len0])
  have run: "on_drop_spectrum dec = Inr (img, dft_2d ?w ?h arr0)"
    by (simp add: on_drop_spectrum_def img arr0 fft)
  have lenf: "length (dft_2d ?w ?h arr0) = ?h * ?w"
    by (simp add: dft_2d_def mult.commute)
  have "sum_list (map (\<lambda>v. v - sum_list (storage img) / real (size_x img * size_y img))
                   (storage img))
          = sum_list (storage img)
              - real (length (storage img))
                  * (sum_list (storage img) / real (size_x img * size_y img))"
    by (rule sum_list_centered)
  also have "\<dots> = 0" using pos2 by (simp add: len2)
  finally have "sum_list arr0 = 0"
    by (simp add: arr0_def sum_list_Complex complex_eq_iff)
  then have dc: "dft_2d ?w ?h arr0 ! 0 = 0"
    using dft_2d_origin[OF len0 pos] by simp
  show ?thesis using run img lenf dc by blast
qed

lemma sqrt_parts: "sqrt (Re v * Re v + Im v * Im v) = cmod v"
  by (simp add: cmod_def power2_eq_square)



text \<open>
  Centering when every read stays inside the input: the output holds samples of the
  input only, and the sample of input \<open>(0, 0)\<close> is among them.
\<close>

lemma center_flat_in_bounds:
  assumes inb: "h div 2 = 0 \<or> h div 2 + w div 2 \<le> h" and k: "k < h * w"
  shows "center_flat w h k < h * w"
proof -
  have w: "0 < w" and h: "0 < h" using k by (cases w; cases h; simp)+
  have "k div w < h" using k w by (simp add: less_mult_imp_div_less)
  then have "(k div w, k mod w) \<in> coords w h" using w by (simp add: coords_def)
  then have "center_src w h (k div w, k mod w) \<in> coords w h"
    using center_src_in_bounds_iff[OF w h] inb by blast
  then obtain y x where yx: "center_src w h (k div w, k mod w) = (y, x)" "y < h" "x < w"
    by (auto simp: coords_def)
  then show ?thesis using cell_less[of y h x w] by (simp add: center_flat_def)
qed



lemma normalize_degenerate:
  assumes img: "size_x img = w" "size_y img = h" "length (storage img) = h * w"
    and arr: "length arr = h * w"
    and flat: "\<And>v. v \<in> set arr \<Longrightarrow> cmod v = m"
  shows "normalize_image arr m m (as_flt_buffer img) =
     Inr \<lparr>size_x = w, size_y = h, storage = replicate (h * w) NaN\<rparr>"
proof -
  have "normalize_image arr m m (as_flt_buffer img) =
     Inr ((as_flt_buffer img)\<lparr>storage :=
            map (\<lambda>v. flt_div (Fin (sqrt (Re v * Re v + Im v * Im v) - m)) (Fin (m - m))) arr\<rparr>)"
    by (rule normalize_image_ok) (simp_all add: as_flt_buffer_def img arr)
  moreover have "map (\<lambda>v. flt_div (Fin (sqrt (Re v * Re v + Im v * Im v) - m)) (Fin (m - m))) arr
      = map (\<lambda>v. NaN) arr"
    by (rule map_cong[OF refl]) (simp add: sqrt_parts flat)
  moreover have "map (\<lambda>v. NaN) arr = replicate (h * w) NaN"
    by (simp add: map_replicate_const arr)
  ultimately show ?thesis by (simp add: as_flt_buffer_def img)
qed




text \<open>
  C3, as the code has it. The claim says that a flat spectrum gives zeros. The loop
  "Convert back to image type" has no such case: it divides \<open>magnitude - min = 0\<close> by
  \<open>max - min = 0\<close>, as the 4 by 4 image of the claim shows at the end of this section.
  Amended claim: for a valid input image whose spectrum magnitudes have
  \<open>globalMax = globalMin\<close>, every sample that the normalisation stage writes is NaN (the
  quotient 0/0); and when the reads of centering stay inside the buffer
  (\<open>halfHeight = 0\<close> or \<open>halfHeight + halfWidth \<le> height\<close>), the pipeline succeeds and every
  sample of the final output buffer is NaN.
\<close>

theorem on_drop_png_flat_spectrum:
  assumes valid: "valid_decoded dec"
    and spec: "on_drop_spectrum dec = Inr (img, arr)"
    and flat: "spectrum_min_max arr (size_x img * size_y img) = Inr (m, m)"
  shows "on_drop_normalized dec =
           Inr \<lparr>size_x = img_width dec, size_y = img_height dec,
                storage = replicate (img_height dec * img_width dec) NaN\<rparr> \<and>
         (img_height dec div 2 = 0 \<or> img_height dec div 2 + img_width dec div 2 \<le> img_height dec
          \<longrightarrow> on_drop_png dec =
                Inr \<lparr>size_x = img_width dec, size_y = img_height dec,
                     storage = replicate (img_height dec * img_width dec) NaN\<rparr>)"
proof -
  let ?w = "img_width dec" and ?h = "img_height dec"
  let ?nan = "\<lparr>size_x = ?w, size_y = ?h, storage = replicate (?h * ?w) NaN\<rparr>"
  have img: "size_x img = ?w" "size_y img = ?h" "length (storage img) = ?h * ?w"
    and arr: "length arr = ?h * ?w"
    using on_drop_spectrum_ok[OF valid] spec by auto
  have pos: "0 < ?h * ?w" using valid by (simp add: valid_decoded_def)
  have "spectrum_min_max arr (size_x img * size_y img)
          = Inr (Min (set (map cmod arr)), Max (set (map cmod arr)))"
    by (rule spectrum_min_max_ok) (use pos in \<open>simp_all add: img arr mult.commute\<close>)
  with flat have mn: "m = Min (set (map cmod arr))" and mx: "m = Max (set (map cmod arr))"
    by simp_all
  have same: "cmod v = m" if "v \<in> set arr" for v
  proof -
    have "m \<le> cmod v" unfolding mn using that by simp
    moreover have "cmod v \<le> m" unfolding mx using that by simp
    ultimately show ?thesis by simp
  qed
  have normalized: "on_drop_normalized dec = Inr ?nan"
    using normalize_degenerate[OF img arr same]
    by (simp add: on_drop_normalized_def spec flat)
  have shifted: "shift_fft_image ?nan = Inr ?nan"
    by (rule shift_fft_image_NaN) (use pos in simp_all)
  have final: "on_drop_png dec = Inr ?nan"
    if inb: "?h div 2 = 0 \<or> ?h div 2 + ?w div 2 \<le> ?h"
  proof -
    have "center_fft_image ?nan (new_image_buffer ?w ?h (Fin 0)) =
      Inr ((new_image_buffer ?w ?h (Fin 0))
             \<lparr>storage := map (\<lambda>k. storage ?nan ! center_flat ?w ?h k) [0..<?h * ?w]\<rparr>)"
      using center_fft_image_ok[of "new_image_buffer ?w ?h (Fin 0)" ?nan]
        center_flat_in_bounds[OF inb]
      by (simp add: new_image_buffer_def mult.commute)
    moreover have "map (\<lambda>k. storage ?nan ! center_flat ?w ?h k) [0..<?h * ?w]
        = replicate (?h * ?w) NaN"
      by (rule nth_equalityI) (simp_all add: center_flat_in_bounds[OF inb])
    ultimately show ?thesis
      by (simp add: on_drop_png_def normalized shifted new_image_buffer_def)
  qed
  show ?thesis using normalized final by blast
qed

text \<open>
  The theorem on the 3 by 3 RGB image with every sample 128, an odd size on which the
  reads of centering stay inside the buffer.
\<close>

theorem on_drop_png_flat_spectrum_witness:
  "valid_decoded \<lparr>img_width = 3, img_height = 3, nBytes = 3, bytes = replicate 27 128\<rparr> \<and>
   on_drop_spectrum \<lparr>img_width = 3, img_height = 3, nBytes = 3, bytes = replicate 27 128\<rparr>
     = Inr (\<lparr>size_x = 3, size_y = 3, storage = replicate 9 (128 / 255)\<rparr>, replicate 9 0) \<and>
   spectrum_min_max (replicate 9 0) (3 * 3) = Inr (0, 0) \<and>
   (3::nat) div 2 + 3 div 2 \<le> 3 \<and>
   on_drop_normalized \<lparr>img_width = 3, img_height = 3, nBytes = 3, bytes = replicate 27 128\<rparr>
     = Inr \<lparr>size_x = 3, size_y = 3, storage = replicate (3 * 3) NaN\<rparr> \<and>
   on_drop_png \<lparr>img_width = 3, img_height = 3, nBytes = 3, bytes = replicate 27 128\<rparr>
     = Inr \<lparr>size_x = 3, size_y = 3, storage = replicate (3 * 3) NaN\<rparr>"
proof -
  let ?dec = "\<lparr>img_width = 3, img_height = 3, nBytes = 3, bytes = replicate 27 128\<rparr>"
  let ?img = "\<lparr>size_x = 3, size_y = 3, storage = replicate 9 (128 / 255 :: real)\<rparr>"
  have valid: "valid_decoded ?dec" by (simp add: valid_decoded_def)
  have spec: "on_drop_spectrum ?dec = Inr (?img, replicate 9 0)"
    by (simp add: eval_defs)
  have mm: "spectrum_min_max (replicate 9 0) (size_x ?img * size_y ?img) = Inr (0, 0)"
    by (simp add: eval_defs)
  have inb: "img_height ?dec div 2 = 0 \<or> img_height ?dec div 2 + img_width ?dec div 2 \<le> img_height ?dec"
    by simp
  note t = on_drop_png_flat_spectrum[OF valid spec mm]
  have norm: "on_drop_normalized ?dec
      = Inr \<lparr>size_x = 3, size_y = 3, storage = replicate (3 * 3) NaN\<rparr>"
    using t by simp
  have run: "on_drop_png ?dec = Inr \<lparr>size_x = 3, size_y = 3, storage = replicate (3 * 3) NaN\<rparr>"
    using t inb by simp
  show ?thesis
  proof (intro conjI)
    show "spectrum_min_max (replicate 9 0) (3 * 3) = Inr (0, 0)" using mm by simp
    show "(3::nat) div 2 + 3 div 2 \<le> 3" by simp
  qed (rule valid spec norm run)+
qed

text \<open>
  The 4 by 4 RGB image with every sample 128: the mean-centred signal and its spectrum
  are zero, the normalised buffer and the final buffer hold NaN in every cell.
\<close>

theorem on_drop_png_constant_image_NaN:
  "valid_decoded \<lparr>img_width = 4, img_height = 4, nBytes = 3, bytes = replicate 48 128\<rparr> \<and>
   on_drop_spectrum \<lparr>img_width = 4, img_height = 4, nBytes = 3, bytes = replicate 48 128\<rparr>
     = Inr (\<lparr>size_x = 4, size_y = 4, storage = replicate 16 (128 / 255)\<rparr>, replicate 16 0) \<and>
   spectrum_min_max (replicate 16 0) (4 * 4) = Inr (0, 0) \<and>
   on_drop_normalized \<lparr>img_width = 4, img_height = 4, nBytes = 3, bytes = replicate 48 128\<rparr>
     = Inr \<lparr>size_x = 4, size_y = 4, storage = replicate 16 NaN\<rparr> \<and>
   on_drop_png \<lparr>img_width = 4, img_height = 4, nBytes = 3, bytes = replicate 48 128\<rparr>
     = Inr \<lparr>size_x = 4, size_y = 4, storage = replicate 16 NaN\<rparr>"
proof -
  let ?dec = "\<lparr>img_width = 4, img_height = 4, nBytes = 3, bytes = replicate 48 128\<rparr>"
  have spec: "on_drop_spectrum ?dec
      = Inr (\<lparr>size_x = 4, size_y = 4, storage = replicate 16 (128 / 255)\<rparr>, replicate 16 0)"
    by (simp add: eval_defs)
  have mm: "spectrum_min_max (replicate 16 0) (4 * 4) = Inr (0, 0)"
    by (simp add: eval_defs)
  have norm: "on_drop_normalized ?dec = Inr \<lparr>size_x = 4, size_y = 4, storage = replicate 16 NaN\<rparr>"
    unfolding on_drop_normalized_def spec by (simp add: eval_defs)
  have run: "on_drop_png ?dec = Inr \<lparr>size_x = 4, size_y = 4, storage = replicate 16 NaN\<rparr>"
    unfolding on_drop_png_def norm by (simp add: eval_defs)
  show ?thesis
  proof (intro conjI)
    show "valid_decoded ?dec" by (simp add: valid_decoded_def)
  qed (rule spec mm norm run)+
qed

end
